theory Spec2Isabelle
  imports Main "HOL-Library.AList"
begin

section \<open>JavaScript values\<close>

text \<open>
  Schemas, root schemas and form data are plain JSON-like JavaScript values. An object is
  the list of its own enumerable properties in the order of their creation, which is the
  order in which a literal or a JSON text declares them; a list with a repeated key
  stands for no JavaScript object. Numbers are only ever compared and passed on, so
  integers stand for them. \<open>JBuiltin\<close> is a built-in function or object of the runtime,
  which a value can only inherit through its prototype chain; it is known by a name.
\<close>

datatype jsval =
    JUndefined
  | JNull
  | JBool bool
  | JNum int
  | JStr string
  | JArr "jsval list"
  | JObj "(string \<times> jsval) list"
  | JBuiltin string

datatype error = TypeError | ReferenceError | UnresolvableCompositionError

text \<open>Modelled from the spec: the keyword constants imported from \<^verbatim>\<open>../constants\<close>.\<close>

abbreviation REF_KEY :: string where "REF_KEY \<equiv> ''$ref''"
abbreviation DEPENDENCIES_KEY :: string where "DEPENDENCIES_KEY \<equiv> ''dependencies''"
abbreviation ALL_OF_KEY :: string where "ALL_OF_KEY \<equiv> ''allOf''"
abbreviation ID_KEY :: string where "ID_KEY \<equiv> ''$id''"
abbreviation ITEMS_KEY :: string where "ITEMS_KEY \<equiv> ''items''"
abbreviation PROPERTIES_KEY :: string where "PROPERTIES_KEY \<equiv> ''properties''"

text \<open>The canonical decimal string of an array index.\<close>

fun show_nat :: "nat \<Rightarrow> string" where
  "show_nat n =
     (if n < 10 then [''0123456789'' ! n]
      else show_nat (n div 10) @ [''0123456789'' ! (n mod 10)])"

declare show_nat.simps [simp del]

text \<open>
  The own enumerable properties of a value in the order of their creation: the entries
  of an object, the indexed elements of an array, the indexed characters of a string,
  and nothing for the other values.
\<close>

fun ownProps :: "jsval \<Rightarrow> (string \<times> jsval) list" where
  "ownProps (JObj kvs) = kvs"
| "ownProps (JArr xs) = zip (map show_nat [0..<length xs]) xs"
| "ownProps (JStr s) = zip (map show_nat [0..<length s]) (map (\<lambda>c. JStr [c]) s)"
| "ownProps _ = []"

text \<open>
  The order in which \<^verbatim>\<open>for ... in\<close> visits the own properties of an object: first the
  names that are array indices (the canonical decimal strings of the integers below
  \<open>2\<^sup>3\<^sup>2 - 1\<close>) in ascending numeric order, then the other names in the order of their
  creation. A loop over an array or a string visits the indices in ascending order, and
  a loop over \<^verbatim>\<open>null\<close>, \<^verbatim>\<open>undefined\<close>, a number or a boolean runs no iteration.
\<close>

definition digitVal :: "char \<Rightarrow> nat" where
  "digitVal c = length (takeWhile (\<lambda>d. d \<noteq> c) ''0123456789'')"

definition indexVal :: "string \<Rightarrow> nat" where
  "indexVal k = foldl (\<lambda>n c. 10 * n + digitVal c) 0 k"

definition isIndex :: "string \<Rightarrow> bool" where
  "isIndex k =
     (k \<noteq> [] \<and> list_all (\<lambda>c. c \<in> set ''0123456789'') k \<and>
      (k = ''0'' \<or> hd k \<noteq> CHR ''0'') \<and> indexVal k < 4294967295)"

definition forInOrder :: "(string \<times> jsval) list \<Rightarrow> (string \<times> jsval) list" where
  "forInOrder kvs =
     sort_key (\<lambda>kv. indexVal (fst kv)) (filter (\<lambda>kv. isIndex (fst kv)) kvs)
     @ filter (\<lambda>kv. \<not> isIndex (fst kv)) kvs"

fun forInProps :: "jsval \<Rightarrow> (string \<times> jsval) list" where
  "forInProps (JObj kvs) = forInOrder kvs"
| "forInProps v = ownProps v"

text \<open>
  \<^verbatim>\<open>typeof v === 'object'\<close>: objects, arrays and \<^verbatim>\<open>null\<close>. Built-in values never
  occur as schemas; the functions among them have \<^verbatim>\<open>typeof\<close> \<^verbatim>\<open>function\<close>.
\<close>

fun typeof_object :: "jsval \<Rightarrow> bool" where
  "typeof_object (JObj _) = True"
| "typeof_object (JArr _) = True"
| "typeof_object JNull = True"
| "typeof_object _ = False"

text \<open>
  \<^verbatim>\<open>key in v\<close> for an object or an array (on \<^verbatim>\<open>null\<close> the operator throws, which the
  builder models before it asks). The builder asks for the five keywords only, and no
  built-in prototype has a member of one of these names, so the own properties decide.
\<close>

fun hasKey :: "string \<Rightarrow> jsval \<Rightarrow> bool" where
  "hasKey k (JArr xs) = (k = ''length'' \<or> k \<in> set (map fst (ownProps (JArr xs))))"
| "hasKey k v = (k \<in> set (map fst (ownProps v)))"

text \<open>
  The own member \<^verbatim>\<open>v[k]\<close>: an own property, or the length of an array or string, and
  \<^verbatim>\<open>undefined\<close> when there is none. It is what the property read \<^verbatim>\<open>schema.properties\<close>
  and lodash \<^verbatim>\<open>get(schema, ITEMS_KEY)\<close> and \<^verbatim>\<open>get(schema, [ITEMS_KEY, REF_KEY])\<close> return,
  the latter as \<open>get (get schema ITEMS_KEY) REF_KEY\<close>: no built-in prototype has a member
  named by a keyword.
\<close>

fun get :: "jsval \<Rightarrow> string \<Rightarrow> jsval" where
  "get (JArr xs) k =
     (if k = ''length'' then JNum (int (length xs))
      else case map_of (ownProps (JArr xs)) k of Some v \<Rightarrow> v | None \<Rightarrow> JUndefined)"
| "get (JStr s) k =
     (if k = ''length'' then JNum (int (length s))
      else case map_of (ownProps (JStr s)) k of Some v \<Rightarrow> v | None \<Rightarrow> JUndefined)"
| "get v k = (case map_of (ownProps v) k of Some x \<Rightarrow> x | None \<Rightarrow> JUndefined)"

text \<open>JavaScript truthiness, as \<^verbatim>\<open>!\<close> and \<^verbatim>\<open>||\<close> see it.\<close>

fun truthy :: "jsval \<Rightarrow> bool" where
  "truthy JUndefined = False"
| "truthy JNull = False"
| "truthy (JBool b) = b"
| "truthy (JNum n) = (n \<noteq> 0)"
| "truthy (JStr s) = (s \<noteq> [])"
| "truthy _ = True"

section \<open>Identifier trees\<close>

text \<open>
  An \<^verbatim>\<open>IdSchema\<close> object: its prototype, when an assignment to \<^verbatim>\<open>__proto__\<close> replaced
  the default one, and its own properties in insertion order. A property holds the
  identifier string or a child object.
\<close>

datatype idval =
    IdStr string
  | IdObj "idval option" "(string \<times> idval) list"

text \<open>The object literal \<^verbatim>\<open>{ $id }\<close>.\<close>

definition newIdSchema :: "string \<Rightarrow> idval" where
  "newIdSchema i = IdObj None [(ID_KEY, IdStr i)]"

text \<open>\<^verbatim>\<open>id || idPrefix\<close>: an absent or empty identifier gives the prefix.\<close>

fun id_or :: "string option \<Rightarrow> string \<Rightarrow> string" where
  "id_or None idPrefix = idPrefix"
| "id_or (Some i) idPrefix = (if i = [] then idPrefix else i)"

text \<open>
  A member of the given name on an object or on its prototype chain, as far as the chain
  consists of identifier trees.
\<close>

fun hasMember :: "string \<Rightarrow> idval \<Rightarrow> bool" where
  "hasMember k (IdStr s) = False"
| "hasMember k (IdObj p kvs) =
     (k \<in> fst ` set kvs \<or> (case p of None \<Rightarrow> False | Some q \<Rightarrow> hasMember k q))"

text \<open>
  The string that \<^verbatim>\<open>+\<close> makes of a property value. An object is converted by
  \<^verbatim>\<open>valueOf\<close>, which for an identifier tree is not callable or returns the object, and
  then by \<^verbatim>\<open>toString\<close>: the one of \<^verbatim>\<open>Object.prototype\<close> gives \<^verbatim>\<open>[object Object]\<close>,
  and a member \<^verbatim>\<open>toString\<close> of the tree or of its chain is a tree, hence not callable,
  and then \<^verbatim>\<open>+\<close> throws a \<^verbatim>\<open>TypeError\<close>.
\<close>

fun toStr :: "idval \<Rightarrow> error + string" where
  "toStr (IdStr s) = Inr s"
| "toStr (IdObj p kvs) =
     (if hasMember ''toString'' (IdObj p kvs) then Inl TypeError else Inr ''[object Object]'')"

text \<open>\<^verbatim>\<open>idSchema[ID_KEY]\<close>; the property is created with the object and never deleted.\<close>

fun currentId :: "idval \<Rightarrow> idval" where
  "currentId (IdObj p kvs) = (case map_of kvs ID_KEY of Some v \<Rightarrow> v | None \<Rightarrow> IdStr [])"
| "currentId (IdStr s) = IdStr []"

text \<open>
  \<^verbatim>\<open>idSchema[name] = child\<close>: the name \<^verbatim>\<open>__proto__\<close> installs the child as prototype,
  any other name overwrites the property of that name or appends a new one.
\<close>

fun assign :: "string \<Rightarrow> idval \<Rightarrow> idval \<Rightarrow> idval" where
  "assign name child (IdObj p kvs) =
     (if name = ''__proto__'' then IdObj (Some child) kvs
      else IdObj p (AList.update name child kvs))"
| "assign name child (IdStr s) = IdStr s"

section \<open>The collaborators of the builder\<close>

text \<open>
  \<^verbatim>\<open>retrieveSchema\<close>, \<^verbatim>\<open>getSchemaType\<close> and \<^verbatim>\<open>deepEquals\<close> are imported by the builder and
  are parameters here. The validator and the custom \<^verbatim>\<open>allOf\<close> merge function are only
  handed on to \<^verbatim>\<open>retrieveSchema\<close>, so they are part of that parameter, which takes the
  schema, the root schema and the form data and returns the retrieved schema or throws.
  The built-in prototypes of the runtime are a parameter too: \<open>inherited E v k\<close> is the
  member that the value \<open>v\<close>, which has no own member \<open>k\<close>, finds on its prototype
  chain, and \<^verbatim>\<open>undefined\<close> when the chain has none.
\<close>

record env =
  retrieveSchema :: "jsval \<Rightarrow> jsval \<Rightarrow> jsval \<Rightarrow> error + jsval"
  getSchemaType :: "jsval \<Rightarrow> jsval"
  deepEquals :: "jsval \<Rightarrow> jsval \<Rightarrow> bool"
  inherited :: "jsval \<Rightarrow> string \<Rightarrow> jsval"

text \<open>
  lodash \<^verbatim>\<open>get(formData, [name])\<close>: \<^verbatim>\<open>undefined\<close> on \<^verbatim>\<open>null\<close> and \<^verbatim>\<open>undefined\<close>,
  otherwise the member \<^verbatim>\<open>formData[name]\<close>, own or inherited.
\<close>

definition hasOwn :: "string \<Rightarrow> jsval \<Rightarrow> bool" where
  "hasOwn k v = (case v of JStr s \<Rightarrow> k = ''length'' \<or> hasKey k v | _ \<Rightarrow> hasKey k v)"

definition getData :: "env \<Rightarrow> jsval \<Rightarrow> string \<Rightarrow> jsval" where
  "getData E v k =
     (if v = JUndefined \<or> v = JNull then JUndefined
      else if hasOwn k v then get v k else inherited E v k)"

section \<open>toIdSchemaInternal\<close>

text \<open>\<^verbatim>\<open>list.concat(v)\<close> returns a new array; an array argument is spread.\<close>

fun concat_js :: "jsval list \<Rightarrow> jsval \<Rightarrow> jsval list" where
  "concat_js xs (JArr ys) = xs @ ys"
| "concat_js xs v = xs @ [v]"

text \<open>
  Lines 45 to 48: the schema to recurse into, when the schema has one of the three
  keywords and the retrieved schema equals no entry of the recursion list.
\<close>

definition retrieveStep ::
  "env \<Rightarrow> jsval \<Rightarrow> jsval \<Rightarrow> jsval \<Rightarrow> jsval list \<Rightarrow> error + jsval option" where
  "retrieveStep E schema rootSchema formData recurseList =
     (if hasKey REF_KEY schema \<or> hasKey DEPENDENCIES_KEY schema \<or> hasKey ALL_OF_KEY schema
      then (case retrieveSchema E schema rootSchema formData of
              Inl e \<Rightarrow> Inl e
            | Inr schema' \<Rightarrow>
                if list_ex (\<lambda>item. deepEquals E item schema') recurseList
                then Inr None else Inr (Some schema'))
      else Inr None)"

text \<open>
  Line 78: \<^verbatim>\<open>idSchema[ID_KEY] + idSeparator + name\<close>, which throws when the value under
  \<^verbatim>\<open>$id\<close> has no string.
\<close>

definition fieldId :: "idval \<Rightarrow> string \<Rightarrow> string \<Rightarrow> error + string" where
  "fieldId idSchema idSeparator name =
     (case toStr (currentId idSchema) of
        Inl e \<Rightarrow> Inl e
      | Inr cur \<Rightarrow> Inr (cur @ idSeparator @ name))"

text \<open>
  The \<^verbatim>\<open>for ... in\<close> loop over the properties: the body runs on each entry in order
  with the object built so far; a throw or a run out of fuel ends the loop.
\<close>

fun forIn ::
  "(string \<Rightarrow> jsval \<Rightarrow> idval \<Rightarrow> (error + idval) option) \<Rightarrow> (string \<times> jsval) list \<Rightarrow> idval
     \<Rightarrow> (error + idval) option" where
  "forIn body [] idSchema = Some (Inr idSchema)"
| "forIn body ((name, field) # rest) idSchema =
     (case body name field idSchema of
        None \<Rightarrow> None
      | Some (Inl e) \<Rightarrow> Some (Inl e)
      | Some (Inr idSchema') \<Rightarrow> forIn body rest idSchema')"

text \<open>
  The builder. The first argument of type \<open>nat\<close> bounds the depth of the recursion:
  \<open>None\<close> says that the bound was reached, \<open>Some (Inl e)\<close> that \<open>e\<close> was thrown.
\<close>

fun toIdSchemaInternal ::
  "env \<Rightarrow> nat \<Rightarrow> jsval \<Rightarrow> string \<Rightarrow> string \<Rightarrow> string option \<Rightarrow> jsval \<Rightarrow> jsval \<Rightarrow> jsval list
     \<Rightarrow> (error + idval) option" where
  "toIdSchemaInternal E 0 schema idPrefix idSeparator id' rootSchema formData recurseList = None"
| "toIdSchemaInternal E (Suc n) schema idPrefix idSeparator id' rootSchema formData recurseList =
     (let idSchema = newIdSchema (id_or id' idPrefix) in
      if \<not> typeof_object schema then Some (Inr idSchema)
      else if schema = JNull then Some (Inl TypeError)
      else
        (case retrieveStep E schema rootSchema formData recurseList of
           Inl e \<Rightarrow> Some (Inl e)
         | Inr (Some schema') \<Rightarrow>
             toIdSchemaInternal E n schema' idPrefix idSeparator id' rootSchema formData
               (concat_js recurseList schema')
         | Inr None \<Rightarrow>
             if hasKey ITEMS_KEY schema \<and> \<not> truthy (get (get schema ITEMS_KEY) REF_KEY) then
               toIdSchemaInternal E n (get schema ITEMS_KEY) idPrefix idSeparator id' rootSchema
                 formData recurseList
             else if getSchemaType E schema = JStr ''object'' \<and> hasKey PROPERTIES_KEY schema then
               forIn
                 (\<lambda>name field idSchema.
                    case fieldId idSchema idSeparator name of
                      Inl e \<Rightarrow> Some (Inl e)
                    | Inr fid \<Rightarrow>
                        (case toIdSchemaInternal E n field idPrefix idSeparator (Some fid)
                                rootSchema (getData E formData name) recurseList of
                           None \<Rightarrow> None
                         | Some (Inl e) \<Rightarrow> Some (Inl e)
                         | Some (Inr child) \<Rightarrow> Some (Inr (assign name child idSchema))))
                 (forInProps (get schema PROPERTIES_KEY)) idSchema
             else Some (Inr idSchema)))"

section \<open>toIdSchema\<close>

text \<open>
  The public entry point: an omitted \<^verbatim>\<open>idPrefix\<close> or \<^verbatim>\<open>idSeparator\<close> takes its default,
  and the recursion list starts from the default \<^verbatim>\<open>[]\<close> of the internal helper.
\<close>

definition toIdSchema ::
  "env \<Rightarrow> nat \<Rightarrow> jsval \<Rightarrow> string option \<Rightarrow> jsval \<Rightarrow> jsval \<Rightarrow> string option \<Rightarrow> string option
     \<Rightarrow> (error + idval) option" where
  "toIdSchema E n schema id' rootSchema formData idPrefix idSeparator =
     toIdSchemaInternal E n schema
       (case idPrefix of None \<Rightarrow> ''root'' | Some p \<Rightarrow> p)
       (case idSeparator of None \<Rightarrow> ''_'' | Some s \<Rightarrow> s)
       id' rootSchema formData []"

section \<open>Delegation and leaves\<close>

text \<open>
  The node and the recursion list of the recursive call of lines 49 and 63, when the
  builder makes one of them, and the nodes at which it makes none and runs no loop.
\<close>

definition delegate :: "env \<Rightarrow> jsval \<Rightarrow> jsval \<Rightarrow> jsval \<Rightarrow> jsval list \<Rightarrow> (jsval \<times> jsval list) option" where
  "delegate E schema rootSchema formData recurseList =
     (if \<not> typeof_object schema \<or> schema = JNull then None
      else case retrieveStep E schema rootSchema formData recurseList of
             Inl e \<Rightarrow> None
           | Inr (Some schema') \<Rightarrow> Some (schema', concat_js recurseList schema')
           | Inr None \<Rightarrow>
               if hasKey ITEMS_KEY schema \<and> \<not> truthy (get (get schema ITEMS_KEY) REF_KEY)
               then Some (get schema ITEMS_KEY, recurseList) else None)"

fun delegates :: "env \<Rightarrow> nat \<Rightarrow> jsval \<Rightarrow> jsval \<Rightarrow> jsval \<Rightarrow> jsval list \<Rightarrow> (jsval \<times> jsval list) option" where
  "delegates E 0 schema rootSchema formData recurseList = Some (schema, recurseList)"
| "delegates E (Suc k) schema rootSchema formData recurseList =
     (case delegate E schema rootSchema formData recurseList of
        None \<Rightarrow> None
      | Some (schema', recurseList') \<Rightarrow> delegates E k schema' rootSchema formData recurseList')"

definition isLeaf :: "env \<Rightarrow> jsval \<Rightarrow> jsval \<Rightarrow> jsval \<Rightarrow> jsval list \<Rightarrow> bool" where
  "isLeaf E schema rootSchema formData recurseList =
     (\<not> typeof_object schema \<or>
      (schema \<noteq> JNull \<and> retrieveStep E schema rootSchema formData recurseList = Inr None \<and>
       \<not> (hasKey ITEMS_KEY schema \<and> \<not> truthy (get (get schema ITEMS_KEY) REF_KEY)) \<and>
       \<not> (getSchemaType E schema = JStr ''object'' \<and> hasKey PROPERTIES_KEY schema)))"

text \<open>
  The object case of line 75: a node that is no \<^verbatim>\<open>null\<close>, at which neither the
  reference handling nor the items handling recurses, and that is classified as object
  and has \<^verbatim>\<open>properties\<close>.
\<close>

definition objectCase :: "env \<Rightarrow> jsval \<Rightarrow> jsval \<Rightarrow> jsval \<Rightarrow> jsval list \<Rightarrow> bool" where
  "objectCase E schema rootSchema formData recurseList =
     (typeof_object schema \<and> schema \<noteq> JNull \<and>
      retrieveStep E schema rootSchema formData recurseList = Inr None \<and>
      \<not> (hasKey ITEMS_KEY schema \<and> \<not> truthy (get (get schema ITEMS_KEY) REF_KEY)) \<and>
      getSchemaType E schema = JStr ''object'' \<and> hasKey PROPERTIES_KEY schema)"

text \<open>
  What the call itself throws before any recursion: the \<^verbatim>\<open>TypeError\<close> of \<^verbatim>\<open>in\<close> on
  \<^verbatim>\<open>null\<close>, or what \<^verbatim>\<open>retrieveSchema\<close> throws.
\<close>

definition throws :: "env \<Rightarrow> jsval \<Rightarrow> jsval \<Rightarrow> jsval \<Rightarrow> jsval list \<Rightarrow> error option" where
  "throws E schema rootSchema formData recurseList =
     (if schema = JNull then Some TypeError
      else if \<not> typeof_object schema then None
      else case retrieveStep E schema rootSchema formData recurseList of
             Inl e \<Rightarrow> Some e | Inr _ \<Rightarrow> None)"

text \<open>The body of the loop of lines 76 to 92, with the recursive calls bounded by \<open>n\<close>.\<close>

definition propertyBody ::
  "env \<Rightarrow> nat \<Rightarrow> string \<Rightarrow> string \<Rightarrow> jsval \<Rightarrow> jsval \<Rightarrow> jsval list
     \<Rightarrow> string \<Rightarrow> jsval \<Rightarrow> idval \<Rightarrow> (error + idval) option" where
  "propertyBody E n idPrefix idSeparator rootSchema formData recurseList name field idSchema =
     (case fieldId idSchema idSeparator name of
        Inl e \<Rightarrow> Some (Inl e)
      | Inr fid \<Rightarrow>
          (case toIdSchemaInternal E n field idPrefix idSeparator (Some fid)
                  rootSchema (getData E formData name) recurseList of
             None \<Rightarrow> None
           | Some (Inl e) \<Rightarrow> Some (Inl e)
           | Some (Inr child) \<Rightarrow> Some (Inr (assign name child idSchema))))"

text \<open>Lines 62 to 95, with the recursive calls bounded by \<open>n\<close>.\<close>

definition afterRetrieve ::
  "env \<Rightarrow> nat \<Rightarrow> jsval \<Rightarrow> string \<Rightarrow> string \<Rightarrow> string option \<Rightarrow> jsval \<Rightarrow> jsval \<Rightarrow> jsval list
     \<Rightarrow> (error + idval) option" where
  "afterRetrieve E n schema idPrefix idSeparator id' rootSchema formData recurseList =
     (if hasKey ITEMS_KEY schema \<and> \<not> truthy (get (get schema ITEMS_KEY) REF_KEY) then
        toIdSchemaInternal E n (get schema ITEMS_KEY) idPrefix idSeparator id' rootSchema
          formData recurseList
      else if getSchemaType E schema = JStr ''object'' \<and> hasKey PROPERTIES_KEY schema then
        forIn (propertyBody E n idPrefix idSeparator rootSchema formData recurseList)
          (forInProps (get schema PROPERTIES_KEY)) (newIdSchema (id_or id' idPrefix))
      else Some (Inr (newIdSchema (id_or id' idPrefix))))"

text \<open>
  A collection of schemas that is closed under the steps of the builder for a root
  schema: what retrieval returns for a member with one of the three keywords is a
  member, whatever the form data, and the items child and the properties the builder
  descends into are members.
\<close>

definition closedUnder :: "env \<Rightarrow> jsval \<Rightarrow> jsval list \<Rightarrow> bool" where
  "closedUnder E rootSchema U =
     (\<forall>s \<in> set U.
        (hasKey REF_KEY s \<or> hasKey DEPENDENCIES_KEY s \<or> hasKey ALL_OF_KEY s \<longrightarrow>
           (\<forall>formData s'. retrieveSchema E s rootSchema formData = Inr s' \<longrightarrow> s' \<in> set U)) \<and>
        (hasKey ITEMS_KEY s \<and> \<not> truthy (get (get s ITEMS_KEY) REF_KEY) \<longrightarrow>
           get s ITEMS_KEY \<in> set U) \<and>
        (getSchemaType E s = JStr ''object'' \<and> hasKey PROPERTIES_KEY s \<longrightarrow>
           snd ` set (ownProps (get s PROPERTIES_KEY)) \<subseteq> set U))"

text \<open>
  A collection on which nothing throws: no member is \<^verbatim>\<open>null\<close>, retrieval of a member
  with one of the three keywords succeeds whatever the form data, and no member that is
  classified as object declares a property named \<^verbatim>\<open>$id\<close>.
\<close>

definition throwFree :: "env \<Rightarrow> jsval \<Rightarrow> jsval list \<Rightarrow> bool" where
  "throwFree E rootSchema U =
     (JNull \<notin> set U \<and>
      (\<forall>s \<in> set U.
         (hasKey REF_KEY s \<or> hasKey DEPENDENCIES_KEY s \<or> hasKey ALL_OF_KEY s \<longrightarrow>
            (\<forall>formData. \<exists>s'. retrieveSchema E s rootSchema formData = Inr s')) \<and>
         (getSchemaType E s = JStr ''object'' \<and> hasKey PROPERTIES_KEY s \<longrightarrow>
            ID_KEY \<notin> fst ` set (ownProps (get s PROPERTIES_KEY)))))"

section \<open>Environments and schemas of the examples\<close>

text \<open>
  Modelled from the spec: the schema-type classifier of section 4.2, whose code is not
  part of the sources at hand. An explicit \<^verbatim>\<open>type\<close> wins (a list of types is
  \<^verbatim>\<open>multi\<close>); otherwise \<^verbatim>\<open>properties\<close> means object, \<^verbatim>\<open>items\<close> means array,
  \<^verbatim>\<open>enum\<close> means string, and nothing of these is unknown. It only instantiates the
  parameter \<open>getSchemaType\<close> in the examples.
\<close>

definition classify :: "jsval \<Rightarrow> jsval" where
  "classify schema =
     (if hasKey ''type'' schema then
        (case get schema ''type'' of JArr ts \<Rightarrow> JStr ''multi'' | t \<Rightarrow> t)
      else if hasKey PROPERTIES_KEY schema then JStr ''object''
      else if hasKey ITEMS_KEY schema then JStr ''array''
      else if hasKey ''enum'' schema then JStr ''string''
      else JStr ''unknown'')"

text \<open>
  The members that every object, array, string, number and boolean inherits from
  \<^verbatim>\<open>Object.prototype\<close>, for the examples; arrays, strings, numbers and booleans inherit
  more from the prototypes of their kind, under names that the examples do not use.
\<close>

definition objectPrototype :: "jsval \<Rightarrow> string \<Rightarrow> jsval" where
  "objectPrototype v k =
     (if k \<in> set [''constructor'', ''hasOwnProperty'', ''isPrototypeOf'', ''propertyIsEnumerable'',
                   ''toLocaleString'', ''toString'', ''valueOf'', ''__proto__'',
                   ''__defineGetter__'', ''__defineSetter__'', ''__lookupGetter__'',
                   ''__lookupSetter__'']
      then JBuiltin k else JUndefined)"

text \<open>
  Example scenario 3 of the spec: the schema \<^verbatim>\<open>{$ref: "#/defs/node"}\<close> under a root
  schema whose \<^verbatim>\<open>defs.node\<close> is that same reference.
\<close>

definition cycleNode :: jsval where
  "cycleNode = JObj [(REF_KEY, JStr ''#/defs/node'')]"

definition cycleRoot :: jsval where
  "cycleRoot = JObj [(''defs'', JObj [(''node'', cycleNode)])]"

text \<open>
  Modelled from the spec: an environment for the examples, whose retrieval replaces a
  reference by the content it points to in the root schema. The pointers of the examples
  have the form \<^verbatim>\<open>#/defs/name\<close>, a pointer to nothing is a \<^verbatim>\<open>ReferenceError\<close>, and a
  schema without reference is its own retrieval. The classifier is the one above,
  \<^verbatim>\<open>deepEquals\<close> is equality of values, and the prototype chain is the one above.
\<close>

definition derefEnv :: env where
  "derefEnv =
     \<lparr> retrieveSchema = (\<lambda>schema rootSchema formData.
          case get schema REF_KEY of
            JStr p \<Rightarrow>
              if take 7 p = ''#/defs/'' \<and> hasKey (drop 7 p) (get rootSchema ''defs'')
              then Inr (get (get rootSchema ''defs'') (drop 7 p)) else Inl ReferenceError
          | _ \<Rightarrow> Inr schema),
       getSchemaType = classify,
       deepEquals = (=),
       inherited = objectPrototype \<rparr>"

text \<open>Example scenario 1 of the spec.\<close>

definition scenario1 :: jsval where
  "scenario1 =
     JObj [(''type'', JStr ''object''),
           (PROPERTIES_KEY, JObj [(''a'', JObj [(''type'', JStr ''string'')]),
                                  (''b'', JObj [(''type'', JStr ''number'')])])]"

text \<open>The array schema of the array-delegation property of the spec.\<close>

definition arrayOfStrings :: jsval where
  "arrayOfStrings =
     JObj [(''type'', JStr ''array''), (ITEMS_KEY, JObj [(''type'', JStr ''string'')])]"

text \<open>The identifier tree that example scenario 1 expects.\<close>

definition scenario1Tree :: idval where
  "scenario1Tree =
     IdObj None [(ID_KEY, IdStr ''root''),
                 (''a'', IdObj None [(ID_KEY, IdStr ''root_a'')]),
                 (''b'', IdObj None [(ID_KEY, IdStr ''root_b'')])]"

text \<open>A schema with a property named \<^verbatim>\<open>$id\<close>.\<close>

definition idPropSchema :: jsval where
  "idPropSchema =
     JObj [(''type'', JStr ''object''),
           (PROPERTIES_KEY, JObj [(ID_KEY, JObj [(''type'', JStr ''string'')])])]"

text \<open>
  An environment whose retrieval depends on the form data, as the resolution of
  \<^verbatim>\<open>dependencies\<close> through the validator of the caller may: without form data the
  retrieved schema is empty, with form data it is an object schema with the property
  \<^verbatim>\<open>present\<close>. The schema below has a property named \<^verbatim>\<open>length\<close>.
\<close>

definition probeEnv :: env where
  "probeEnv =
     \<lparr> retrieveSchema = (\<lambda>schema rootSchema formData.
          if formData = JUndefined then Inr (JObj [])
          else Inr (JObj [(''type'', JStr ''object''),
                          (PROPERTIES_KEY, JObj [(''present'', JObj [])])])),
       getSchemaType = classify,
       deepEquals = (=),
       inherited = objectPrototype \<rparr>"

definition lengthSchema :: jsval where
  "lengthSchema =
     JObj [(''type'', JStr ''object''),
           (PROPERTIES_KEY, JObj [(''length'', JObj [(DEPENDENCIES_KEY, JObj [])])])]"

text \<open>
  Example scenario 4 of the spec, with a root schema whose \<^verbatim>\<open>defs.item\<close> is an object
  schema with one property.
\<close>

definition refItemsArray :: jsval where
  "refItemsArray =
     JObj [(''type'', JStr ''array''), (ITEMS_KEY, JObj [(REF_KEY, JStr ''#/defs/item'')])]"

definition scenario4 :: jsval where
  "scenario4 =
     JObj [(''type'', JStr ''object''), (PROPERTIES_KEY, JObj [(''items'', refItemsArray)])]"

definition scenario4Root :: jsval where
  "scenario4Root =
     JObj [(''defs'', JObj [(''item'',
        JObj [(''type'', JStr ''object''),
              (PROPERTIES_KEY, JObj [(''x'', JObj [(''type'', JStr ''string'')])])])])]"

text \<open>
  A schema with the self-referential property \<^verbatim>\<open>self\<close> of example scenario 3 and a
  property whose reference points to nothing.
\<close>

definition danglingCycle :: jsval where
  "danglingCycle =
     JObj [(''type'', JStr ''object''),
           (PROPERTIES_KEY, JObj [(''self'', cycleNode),
                                  (''other'', JObj [(REF_KEY, JStr ''#/defs/missing'')])])]"

text \<open>
  A schema with a property \<^verbatim>\<open>$id\<close>, which is an object with the property
  \<^verbatim>\<open>toString\<close>, followed by the self-referential property \<^verbatim>\<open>self\<close>.
\<close>

definition toStringCycle :: jsval where
  "toStringCycle =
     JObj [(''type'', JStr ''object''),
           (PROPERTIES_KEY,
            JObj [(ID_KEY, JObj [(''type'', JStr ''object''),
                                 (PROPERTIES_KEY, JObj [(''toString'', JObj [])])]),
                  (''self'', cycleNode)])]"

text \<open>A schema that declares the properties \<^verbatim>\<open>b\<close>, \<^verbatim>\<open>2\<close> and \<^verbatim>\<open>1\<close> in this order.\<close>

definition orderSchema :: jsval where
  "orderSchema =
     JObj [(''type'', JStr ''object''),
           (PROPERTIES_KEY, JObj [(''b'', JObj []), (''2'', JObj []), (''1'', JObj [])])]"

text \<open>A schema of type object with a property and with an \<^verbatim>\<open>items\<close> child.\<close>

definition itemsObject :: jsval where
  "itemsObject =
     JObj [(''type'', JStr ''object''),
           (PROPERTIES_KEY, JObj [(''q'', JObj [])]),
           (ITEMS_KEY, JObj [(''type'', JStr ''string'')])]"







section \<open>The identifiers of a tree\<close>

text \<open>
  All identifier strings of a tree: those of its prototype, when it has one, and those of
  its own properties.
\<close>

fun ids :: "idval \<Rightarrow> string list" where
  "ids (IdStr s) = [s]"
| "ids (IdObj p kvs) =
     (case p of None \<Rightarrow> [] | Some q \<Rightarrow> ids q) @ concat (map (\<lambda>kv. ids (snd kv)) kvs)"

text \<open>
  Property names that keep identifiers apart when the separator is the single character
  \<open>c\<close>: distinct, without \<open>c\<close>, and not \<^verbatim>\<open>$id\<close>.
\<close>

definition namesOk :: "char \<Rightarrow> string list \<Rightarrow> bool" where
  "namesOk c ns = (distinct ns \<and> (\<forall>n \<in> set ns. c \<notin> set n \<and> n \<noteq> ID_KEY))"

text \<open>The names are such at every nesting level of a value.\<close>

fun goodNames :: "char \<Rightarrow> jsval \<Rightarrow> bool" where
  "goodNames c (JObj kvs) =
     (namesOk c (map fst (ownProps (get (JObj kvs) PROPERTIES_KEY))) \<and>
      (\<forall>kv \<in> set kvs. goodNames c (snd kv)))"
| "goodNames c (JArr xs) = (\<forall>v \<in> set xs. goodNames c v)"
| "goodNames c v = True"

text \<open>
  An identifier below the property \<open>name\<close> of the node with identifier \<open>b\<close>: the
  identifier of the property or of one of its descendants.
\<close>

definition below :: "string \<Rightarrow> char \<Rightarrow> string \<Rightarrow> string \<Rightarrow> bool" where
  "below b c name i = (i = b @ c # name \<or> (\<exists>r. i = b @ c # name @ c # r))"

text \<open>A schema whose property \<^verbatim>\<open>a_b\<close> and whose nested property \<^verbatim>\<open>a.b\<close> share an identifier.\<close>

definition clashSchema :: jsval where
  "clashSchema =
     JObj [(''type'', JStr ''object''),
           (PROPERTIES_KEY,
            JObj [(''a'', JObj [(''type'', JStr ''object''),
                               (PROPERTIES_KEY, JObj [(''b'', JObj [(''type'', JStr ''string'')])])]),
                  (''a_b'', JObj [(''type'', JStr ''string'')])])]"

section \<open>The recursion list as a shared array\<close>

text \<open>
  The recursion list is a JavaScript array, passed by reference. To see that no call
  changes an array another call can reach, the builder is modelled a second time over a
  store of arrays: an array is an address in the store, \<^verbatim>\<open>findIndex\<close> reads the array at
  the address, \<^verbatim>\<open>concat\<close> allocates a new array and leaves its receiver alone, and the
  default \<^verbatim>\<open>[]\<close> of the parameter allocates an empty array at each call that omits the
  argument. Every result comes with the store the call leaves behind.
\<close>

type_synonym store = "jsval list list"




text \<open>
  A run over the store \<open>h\<close> matches a result of the builder over values: both reach the
  recursion bound, or they give the same outcome and the store left behind is \<open>h\<close>
  followed by newly allocated arrays.
\<close>

definition matches :: "store \<Rightarrow> ((error + idval) \<times> store) option \<Rightarrow> (error + idval) option \<Rightarrow> bool" where
  "matches h x y =
     (case x of None \<Rightarrow> y = None
      | Some (r, h') \<Rightarrow> y = Some r \<and> take (length h) h' = h \<and> length h \<le> length h')"

section \<open>Properties of the values\<close>

lemma digit_char: "(n::nat) < 10 \<Longrightarrow> ''0123456789'' ! n \<in> set ''0123456789''"
  by (rule nth_mem) simp

lemma show_nat_digits: "set (show_nat n) \<subseteq> set ''0123456789''"
proof (induction n rule: show_nat.induct)
  case (1 n)
  show ?case
  proof (cases "n < 10")
    case True
    then show ?thesis using digit_char [of n] by (subst show_nat.simps) simp
  next
    case False
    have "n mod 10 < 10" by simp
    then have "''0123456789'' ! (n mod 10) \<in> set ''0123456789''" by (rule digit_char)
    with 1 False show ?thesis by (subst show_nat.simps) simp
  qed
qed

lemma hasKey_JArr:
  assumes "hasKey k (JArr xs)" shows "k = ''length'' \<or> set k \<subseteq> set ''0123456789''"
proof -
  from assms have "k = ''length'' \<or> k \<in> set (map show_nat [0..<length xs])"
    by (auto dest: set_zip_leftD)
  then show ?thesis using show_nat_digits by auto
qed

lemma hasKey_JArr_keywords [simp]:
  "\<not> hasKey REF_KEY (JArr xs)" "\<not> hasKey DEPENDENCIES_KEY (JArr xs)"
  "\<not> hasKey ALL_OF_KEY (JArr xs)" "\<not> hasKey ITEMS_KEY (JArr xs)"
  "\<not> hasKey PROPERTIES_KEY (JArr xs)"
  using hasKey_JArr [of REF_KEY xs] hasKey_JArr [of DEPENDENCIES_KEY xs]
    hasKey_JArr [of ALL_OF_KEY xs] hasKey_JArr [of ITEMS_KEY xs]
    hasKey_JArr [of PROPERTIES_KEY xs]
  by auto

lemma size_ownProps: "c \<in> snd ` set (ownProps p) \<Longrightarrow> size c \<le> size p"
proof (cases p)
  case (JObj kvs)
  assume "c \<in> snd ` set (ownProps p)"
  with JObj obtain k where "(k, c) \<in> set kvs" by auto
  then have "size c < size (JObj kvs)"
    by (induction kvs) auto
  with JObj show ?thesis by simp
next
  case (JArr xs)
  assume "c \<in> snd ` set (ownProps p)"
  with JArr have "c \<in> set xs" by (auto dest: set_zip_rightD)
  then have "size c < size (JArr xs)" by (induction xs) auto
  with JArr show ?thesis by simp
next
  case (JStr s)
  assume "c \<in> snd ` set (ownProps p)"
  with JStr have "size c = 0" by (auto dest!: set_zip_rightD)
  then show ?thesis by simp
qed auto

lemma get_JObj_mem:
  assumes "hasKey k (JObj kvs)" shows "(k, get (JObj kvs) k) \<in> set kvs"
proof (cases "map_of kvs k")
  case None
  with assms show ?thesis by (simp add: map_of_eq_None_iff)
next
  case (Some v)
  then show ?thesis by (auto dest: map_of_SomeD)
qed

lemma size_list_mem: "v \<in> set xs \<Longrightarrow> size v < Suc (size_list size xs)"
  by (induction xs) auto

lemma size_get: "hasKey k s \<Longrightarrow> typeof_object s \<Longrightarrow> size (get s k) < size s"
proof (cases s)
  case (JObj kvs)
  assume "hasKey k s"
  with JObj have "(k, get s k) \<in> set kvs" using get_JObj_mem by simp
  then have "size (get s k) < size (JObj kvs)" by (induction kvs) auto
  with JObj show ?thesis by simp
next
  case (JArr xs)
  have "size v < Suc (size_list size xs)"
    if "map_of (zip (map show_nat [0..<length xs]) xs) k = Some v" for v
  proof -
    from that have "v \<in> set xs" by (auto dest!: map_of_SomeD set_zip_rightD)
    then show ?thesis by (rule size_list_mem)
  qed
  with JArr show ?thesis by (auto split: option.splits)
qed auto

lemma getData_absent [simp]: "getData E JUndefined k = JUndefined" "getData E JNull k = JUndefined"
  by (simp_all add: getData_def)

subsection \<open>The order of the loop\<close>

lemma set_forInOrder: "set (forInOrder kvs) = set kvs"
  by (auto simp: forInOrder_def)

lemma set_forInProps: "set (forInProps v) = set (ownProps v)"
  by (cases v) (simp_all add: set_forInOrder)

lemma distinct_forInOrder:
  assumes "distinct (map fst kvs)"
  shows "distinct (map fst (forInOrder kvs))"
proof -
  from assms have d: "distinct kvs" and i: "inj_on fst (set kvs)"
    by (simp_all add: distinct_map)
  have "distinct (forInOrder kvs)"
    using d by (auto simp: forInOrder_def)
  moreover have "inj_on fst (set (forInOrder kvs))"
    using i by (simp add: set_forInOrder)
  ultimately show ?thesis by (simp add: distinct_map)
qed

lemma distinct_forInProps:
  "distinct (map fst (ownProps v)) \<Longrightarrow> distinct (map fst (forInProps v))"
  by (cases v) (simp_all add: distinct_forInOrder)

lemma forInOrder_declared:
  assumes "\<forall>kv \<in> set kvs. \<not> isIndex (fst kv)"
  shows "forInOrder kvs = kvs"
proof -
  from assms have "filter (\<lambda>kv. isIndex (fst kv)) kvs = []" by (simp add: filter_empty_conv)
  moreover from assms have "filter (\<lambda>kv. \<not> isIndex (fst kv)) kvs = kvs" by simp
  ultimately show ?thesis by (simp add: forInOrder_def)
qed

lemma fieldId_IdStr: "currentId a = IdStr b \<Longrightarrow> fieldId a sep name = Inr (b @ sep @ name)"
  by (simp add: fieldId_def)

section \<open>Properties of the builder\<close>

subsection \<open>The cases of a call\<close>

lemma toIdSchemaInternal_delegate:
  assumes "delegate E schema rootSchema formData recurseList = Some (schema', recurseList')"
  shows "toIdSchemaInternal E (Suc n) schema idPrefix idSeparator id' rootSchema formData recurseList
         = toIdSchemaInternal E n schema' idPrefix idSeparator id' rootSchema formData recurseList'"
  using assms
  by (auto simp: delegate_def Let_def split: if_splits sum.splits option.splits)

lemma toIdSchemaInternal_leaf:
  assumes "isLeaf E schema rootSchema formData recurseList"
  shows "toIdSchemaInternal E (Suc n) schema idPrefix idSeparator id' rootSchema formData recurseList
         = Some (Inr (newIdSchema (id_or id' idPrefix)))"
  using assms by (auto simp: isLeaf_def Let_def)

lemma toIdSchemaInternal_delegates:
  assumes "delegates E k schema rootSchema formData recurseList = Some (schema', recurseList')"
  shows "toIdSchemaInternal E (k + n) schema idPrefix idSeparator id' rootSchema formData recurseList
         = toIdSchemaInternal E n schema' idPrefix idSeparator id' rootSchema formData recurseList'"
  using assms
proof (induction k arbitrary: schema recurseList)
  case 0
  then show ?case by simp
next
  case (Suc k)
  from Suc.prems obtain s1 r1 where
    d: "delegate E schema rootSchema formData recurseList = Some (s1, r1)"
    and ds: "delegates E k s1 rootSchema formData r1 = Some (schema', recurseList')"
    by (auto split: option.splits)
  show ?case
    using toIdSchemaInternal_delegate [OF d, of "k + n"] Suc.IH [OF ds] by simp
qed

lemma toIdSchemaInternal_throws:
  assumes "throws E schema rootSchema formData recurseList = Some e"
  shows "toIdSchemaInternal E (Suc n) schema idPrefix idSeparator id' rootSchema formData recurseList
         = Some (Inl e)"
  using assms by (auto simp: throws_def Let_def split: if_splits sum.splits)

lemma null_schema_throws:
  "toIdSchemaInternal E (Suc n) JNull idPrefix idSeparator id' rootSchema formData recurseList
   = Some (Inl TypeError)"
  by (rule toIdSchemaInternal_throws) (simp add: throws_def)

lemma toIdSchemaInternal_objectCase:
  assumes "objectCase E schema rootSchema formData recurseList"
  shows "toIdSchemaInternal E (Suc n) schema idPrefix idSeparator id' rootSchema formData recurseList
         = forIn (propertyBody E n idPrefix idSeparator rootSchema formData recurseList)
             (forInProps (get schema PROPERTIES_KEY)) (newIdSchema (id_or id' idPrefix))"
proof -
  have "propertyBody E n idPrefix idSeparator rootSchema formData recurseList
        = (\<lambda>name field idSchema.
             case fieldId idSchema idSeparator name of
               Inl e \<Rightarrow> Some (Inl e)
             | Inr fid \<Rightarrow>
                 (case toIdSchemaInternal E n field idPrefix idSeparator (Some fid)
                         rootSchema (getData E formData name) recurseList of
                    None \<Rightarrow> None
                  | Some (Inl e) \<Rightarrow> Some (Inl e)
                  | Some (Inr child) \<Rightarrow> Some (Inr (assign name child idSchema))))"
    by (intro ext) (simp add: propertyBody_def)
  with assms show ?thesis by (auto simp: objectCase_def Let_def)
qed

lemma builder_cases:
  obtains (leaf) "isLeaf E schema rootSchema formData recurseList"
  | (thrown) e where "throws E schema rootSchema formData recurseList = Some e"
  | (delegated) schema' recurseList' where
      "delegate E schema rootSchema formData recurseList = Some (schema', recurseList')"
  | (object) "objectCase E schema rootSchema formData recurseList"
proof (cases "typeof_object schema \<and> schema \<noteq> JNull")
  case False
  then have "isLeaf E schema rootSchema formData recurseList
             \<or> throws E schema rootSchema formData recurseList = Some TypeError"
    by (auto simp: isLeaf_def throws_def)
  then show ?thesis using leaf thrown by blast
next
  case True
  show ?thesis
  proof (cases "retrieveStep E schema rootSchema formData recurseList")
    case (Inl e)
    with True have "throws E schema rootSchema formData recurseList = Some e"
      by (simp add: throws_def)
    then show ?thesis by (rule thrown)
  next
    case (Inr a)
    show ?thesis
    proof (cases a)
      case (Some schema')
      with True Inr
      have "delegate E schema rootSchema formData recurseList
            = Some (schema', concat_js recurseList schema')"
        by (simp add: delegate_def)
      then show ?thesis by (rule delegated)
    next
      case None
      show ?thesis
      proof (cases "hasKey ITEMS_KEY schema \<and> \<not> truthy (get (get schema ITEMS_KEY) REF_KEY)")
        case items: True
        with True Inr None
        have "delegate E schema rootSchema formData recurseList
              = Some (get schema ITEMS_KEY, recurseList)"
          by (simp add: delegate_def)
        then show ?thesis by (rule delegated)
      next
        case noitems: False
        show ?thesis
        proof (cases "getSchemaType E schema = JStr ''object'' \<and> hasKey PROPERTIES_KEY schema")
          case True
          with \<open>typeof_object schema \<and> schema \<noteq> JNull\<close> Inr None noitems
          have "objectCase E schema rootSchema formData recurseList"
            by (simp add: objectCase_def)
          then show ?thesis by (rule object)
        next
          case False
          with \<open>typeof_object schema \<and> schema \<noteq> JNull\<close> Inr None noitems
          have "isLeaf E schema rootSchema formData recurseList"
            by (simp add: isLeaf_def)
          then show ?thesis by (rule leaf)
        qed
      qed
    qed
  qed
qed

declare toIdSchemaInternal.simps(2) [simp del]

subsection \<open>More recursion depth gives the same result\<close>

lemma forIn_mono:
  assumes "\<And>name field a r. (name, field) \<in> set ps \<Longrightarrow> body name field a = Some r
             \<Longrightarrow> body' name field a = Some r"
    and "forIn body ps acc = Some r"
  shows "forIn body' ps acc = Some r"
  using assms
proof (induction ps arbitrary: acc)
  case Nil
  then show ?case by simp
next
  case (Cons p ps)
  obtain name field where p: "p = (name, field)" by (cases p)
  from Cons.prems(2) p obtain x where x: "body name field acc = Some x"
    by (auto split: option.splits)
  then have x': "body' name field acc = Some x" using Cons.prems(1) p by simp
  show ?case
  proof (cases x)
    case (Inl e)
    with x x' Cons.prems(2) p show ?thesis by auto
  next
    case (Inr a)
    with x Cons.prems(2) p have "forIn body ps a = Some r" by simp
    then have "forIn body' ps a = Some r" using Cons.IH Cons.prems(1) by simp
    with x' Inr p show ?thesis by simp
  qed
qed

lemma propertyBody_Suc:
  assumes "\<And>schema id' formData r.
             toIdSchemaInternal E n schema idPrefix idSeparator id' rootSchema formData recurseList
             = Some r \<Longrightarrow>
             toIdSchemaInternal E m schema idPrefix idSeparator id' rootSchema formData recurseList
             = Some r"
    and "propertyBody E n idPrefix idSeparator rootSchema formData recurseList name field a = Some x"
  shows "propertyBody E m idPrefix idSeparator rootSchema formData recurseList name field a = Some x"
proof (cases "fieldId a idSeparator name")
  case (Inl e)
  with assms(2) show ?thesis by (simp add: propertyBody_def)
next
  case (Inr fid)
  with assms(2) obtain y where
    y: "toIdSchemaInternal E n field idPrefix idSeparator (Some fid) rootSchema
          (getData E formData name) recurseList = Some y"
    by (auto simp: propertyBody_def split: option.splits)
  from assms(1) [OF y] y Inr assms(2) show ?thesis by (simp add: propertyBody_def)
qed

lemma toIdSchemaInternal_Suc:
  "toIdSchemaInternal E n schema idPrefix idSeparator id' rootSchema formData recurseList = Some r
   \<Longrightarrow> toIdSchemaInternal E (Suc n) schema idPrefix idSeparator id' rootSchema formData recurseList = Some r"
proof (induction n arbitrary: schema id' formData recurseList r)
  case 0
  then show ?case by simp
next
  case (Suc n)
  show ?case
  proof (cases rule: builder_cases [of E schema rootSchema formData recurseList])
    case leaf
    with Suc.prems show ?thesis by (simp only: toIdSchemaInternal_leaf)
  next
    case (thrown e)
    with Suc.prems show ?thesis by (simp only: toIdSchemaInternal_throws)
  next
    case (delegated schema' recurseList')
    with Suc.prems Suc.IH show ?thesis by (simp only: toIdSchemaInternal_delegate)
  next
    case object
    have "propertyBody E (Suc n) idPrefix idSeparator rootSchema formData recurseList name field a = Some x"
      if "propertyBody E n idPrefix idSeparator rootSchema formData recurseList name field a = Some x"
      for name field a x
      using Suc.IH that by (rule propertyBody_Suc)
    moreover from Suc.prems
    have "forIn (propertyBody E n idPrefix idSeparator rootSchema formData recurseList)
            (forInProps (get schema PROPERTIES_KEY)) (newIdSchema (id_or id' idPrefix)) = Some r"
      by (simp only: toIdSchemaInternal_objectCase [OF object])
    ultimately
    have "forIn (propertyBody E (Suc n) idPrefix idSeparator rootSchema formData recurseList)
            (forInProps (get schema PROPERTIES_KEY)) (newIdSchema (id_or id' idPrefix)) = Some r"
      by (rule forIn_mono)
    then show ?thesis by (simp only: toIdSchemaInternal_objectCase [OF object])
  qed
qed

lemma toIdSchemaInternal_mono:
  assumes "toIdSchemaInternal E n schema idPrefix idSeparator id' rootSchema formData recurseList = Some r"
    and "n \<le> m"
  shows "toIdSchemaInternal E m schema idPrefix idSeparator id' rootSchema formData recurseList = Some r"
  using assms(2) assms(1)
proof (induction rule: dec_induct)
  case base
  then show ?case .
next
  case (step k)
  then show ?case by (simp only: toIdSchemaInternal_Suc)
qed

lemma propertyBody_mono:
  assumes "propertyBody E n idPrefix idSeparator rootSchema formData recurseList name field a = Some r"
    and "n \<le> m"
  shows "propertyBody E m idPrefix idSeparator rootSchema formData recurseList name field a = Some r"
  using _ assms(1)
proof (rule propertyBody_Suc)
  fix schema id' formData r
  assume "toIdSchemaInternal E n schema idPrefix idSeparator id' rootSchema formData recurseList
          = Some r"
  then show "toIdSchemaInternal E m schema idPrefix idSeparator id' rootSchema formData recurseList
             = Some r"
    using assms(2) by (rule toIdSchemaInternal_mono)
qed

subsection \<open>Termination on a closed collection\<close>

lemma toIdSchemaInternal_afterRetrieve:
  assumes "typeof_object schema" "schema \<noteq> JNull"
    and "retrieveStep E schema rootSchema formData recurseList = Inr None"
  shows "toIdSchemaInternal E (Suc n) schema idPrefix idSeparator id' rootSchema formData recurseList
         = afterRetrieve E n schema idPrefix idSeparator id' rootSchema formData recurseList"
proof (cases rule: builder_cases [of E schema rootSchema formData recurseList])
  case leaf
  with assms show ?thesis
    by (simp add: toIdSchemaInternal_leaf) (auto simp: afterRetrieve_def isLeaf_def)
next
  case (thrown e)
  with assms show ?thesis by (simp add: throws_def)
next
  case (delegated schema' recurseList')
  with assms show ?thesis
    by (simp add: toIdSchemaInternal_delegate)
       (auto simp: afterRetrieve_def delegate_def split: if_splits)
next
  case object
  then show ?thesis
    by (simp add: toIdSchemaInternal_objectCase) (auto simp: afterRetrieve_def objectCase_def)
qed

lemma forIn_terminates:
  assumes "\<And>name field a. (name, field) \<in> set ps \<Longrightarrow>
             \<exists>n r. propertyBody E n idPrefix idSeparator rootSchema formData recurseList name field a
                   = Some r"
  shows "\<exists>n r. forIn (propertyBody E n idPrefix idSeparator rootSchema formData recurseList) ps acc
               = Some r"
  using assms
proof (induction ps arbitrary: acc)
  case Nil
  then show ?case by simp
next
  case (Cons p ps)
  obtain name field where p: "p = (name, field)" by (cases p)
  have "\<exists>n r. propertyBody E n idPrefix idSeparator rootSchema formData recurseList name field acc
               = Some r"
    by (rule Cons.prems) (simp add: p)
  then obtain n1 r1 where
    h: "propertyBody E n1 idPrefix idSeparator rootSchema formData recurseList name field acc
        = Some r1"
    by blast
  show ?case
  proof (cases r1)
    case (Inl e)
    with h p
    have "forIn (propertyBody E n1 idPrefix idSeparator rootSchema formData recurseList) (p # ps) acc
          = Some (Inl e)"
      by simp
    then show ?thesis by blast
  next
    case (Inr a1)
    have "\<exists>n r. forIn (propertyBody E n idPrefix idSeparator rootSchema formData recurseList) ps a1
                 = Some r"
    proof (rule Cons.IH)
      fix name field a
      assume "(name, field) \<in> set ps"
      then have "(name, field) \<in> set (p # ps)" by simp
      then show "\<exists>n r. propertyBody E n idPrefix idSeparator rootSchema formData recurseList
                         name field a = Some r"
        by (rule Cons.prems)
    qed
    then obtain n2 r where
      r: "forIn (propertyBody E n2 idPrefix idSeparator rootSchema formData recurseList) ps a1
          = Some r"
      by blast
    let ?N = "max n1 n2"
    from h Inr
    have "propertyBody E n1 idPrefix idSeparator rootSchema formData recurseList name field acc
          = Some (Inr a1)"
      by simp
    then have h': "propertyBody E ?N idPrefix idSeparator rootSchema formData recurseList name field acc
          = Some (Inr a1)"
      by (rule propertyBody_mono) simp
    have "forIn (propertyBody E ?N idPrefix idSeparator rootSchema formData recurseList) ps a1
          = Some r"
    proof (rule forIn_mono [OF _ r])
      fix name field a x
      assume "propertyBody E n2 idPrefix idSeparator rootSchema formData recurseList name field a = Some x"
      then show "propertyBody E ?N idPrefix idSeparator rootSchema formData recurseList name field a = Some x"
        by (rule propertyBody_mono) simp
    qed
    with h' p
    have "forIn (propertyBody E ?N idPrefix idSeparator rootSchema formData recurseList) (p # ps) acc
          = Some r"
      by simp
    then show ?thesis by blast
  qed
qed

lemma closedUnder_retrieve:
  assumes "closedUnder E rootSchema U" "s \<in> set U"
    and "hasKey REF_KEY s \<or> hasKey DEPENDENCIES_KEY s \<or> hasKey ALL_OF_KEY s"
    and "retrieveSchema E s rootSchema formData = Inr s'"
  shows "s' \<in> set U"
proof -
  from assms(1,2) have
    "hasKey REF_KEY s \<or> hasKey DEPENDENCIES_KEY s \<or> hasKey ALL_OF_KEY s \<longrightarrow>
       (\<forall>formData s'. retrieveSchema E s rootSchema formData = Inr s' \<longrightarrow> s' \<in> set U)"
    unfolding closedUnder_def by blast
  with assms(3,4) show ?thesis by blast
qed

lemma closedUnder_items:
  assumes "closedUnder E rootSchema U" "s \<in> set U"
    and "hasKey ITEMS_KEY s" "\<not> truthy (get (get s ITEMS_KEY) REF_KEY)"
  shows "get s ITEMS_KEY \<in> set U"
proof -
  from assms(1,2) have
    "hasKey ITEMS_KEY s \<and> \<not> truthy (get (get s ITEMS_KEY) REF_KEY) \<longrightarrow> get s ITEMS_KEY \<in> set U"
    unfolding closedUnder_def by blast
  with assms(3,4) show ?thesis by blast
qed

lemma closedUnder_properties:
  assumes "closedUnder E rootSchema U" "s \<in> set U"
    and "getSchemaType E s = JStr ''object''" "hasKey PROPERTIES_KEY s"
    and "(name, field) \<in> set (forInProps (get s PROPERTIES_KEY))"
  shows "field \<in> set U"
proof -
  from assms(1,2) have
    "getSchemaType E s = JStr ''object'' \<and> hasKey PROPERTIES_KEY s \<longrightarrow>
       snd ` set (ownProps (get s PROPERTIES_KEY)) \<subseteq> set U"
    unfolding closedUnder_def by blast
  with assms(3,4) have "snd ` set (ownProps (get s PROPERTIES_KEY)) \<subseteq> set U" by blast
  moreover from assms(5) have "field \<in> snd ` set (ownProps (get s PROPERTIES_KEY))"
    unfolding set_forInProps [symmetric] by (rule rev_image_eqI) simp
  ultimately show ?thesis by blast
qed

lemma throwFree_nonnull: "throwFree E rootSchema U \<Longrightarrow> s \<in> set U \<Longrightarrow> s \<noteq> JNull"
  unfolding throwFree_def by blast

lemma throwFree_retrieve:
  assumes "throwFree E rootSchema U" "s \<in> set U"
    and "hasKey REF_KEY s \<or> hasKey DEPENDENCIES_KEY s \<or> hasKey ALL_OF_KEY s"
  shows "\<exists>s'. retrieveSchema E s rootSchema formData = Inr s'"
proof -
  from assms(1,2) have
    "hasKey REF_KEY s \<or> hasKey DEPENDENCIES_KEY s \<or> hasKey ALL_OF_KEY s \<longrightarrow>
       (\<forall>formData. \<exists>s'. retrieveSchema E s rootSchema formData = Inr s')"
    unfolding throwFree_def by blast
  with assms(3) show ?thesis by blast
qed

lemma throwFree_names:
  assumes "throwFree E rootSchema U" "s \<in> set U"
    and "getSchemaType E s = JStr ''object''" "hasKey PROPERTIES_KEY s"
  shows "ID_KEY \<notin> fst ` set (forInProps (get s PROPERTIES_KEY))"
proof -
  from assms(1,2) have
    "getSchemaType E s = JStr ''object'' \<and> hasKey PROPERTIES_KEY s \<longrightarrow>
       ID_KEY \<notin> fst ` set (ownProps (get s PROPERTIES_KEY))"
    unfolding throwFree_def by blast
  with assms(3,4) show ?thesis by (simp add: set_forInProps)
qed

lemma isLeaf_JArr: "isLeaf E (JArr ys) rootSchema formData recurseList"
  by (simp add: isLeaf_def retrieveStep_def del: hasKey.simps)

lemma lex2_induct:
  fixes f g :: "'a \<Rightarrow> 'b \<Rightarrow> nat"
  assumes step: "\<And>a b. (\<And>a' b'. f a' b' < f a b \<or> (f a' b' = f a b \<and> g a' b' < g a b) \<Longrightarrow> P a' b')
                   \<Longrightarrow> P a b"
  shows "P a b"
proof -
  have "wf (inv_image (less_than <*lex*> less_than) (\<lambda>(a, b). (f a b, g a b)))"
    by (intro wf_inv_image wf_lex_prod wf_less_than)
  then have "case_prod P (a, b)"
  proof (induction "(a, b)" arbitrary: a b rule: wf_induct_rule)
    case (less a b)
    show ?case
      unfolding prod.case
    proof (rule step)
      fix a' b'
      assume "f a' b' < f a b \<or> (f a' b' = f a b \<and> g a' b' < g a b)"
      then have "((a', b'), (a, b)) \<in> inv_image (less_than <*lex*> less_than) (\<lambda>(a, b). (f a b, g a b))"
        by auto
      from less [OF this] show "P a' b'" by simp
    qed
  qed
  then show ?thesis by simp
qed

lemma closed_terminates:
  assumes closed: "closedUnder E rootSchema U"
    and refl: "\<And>x. deepEquals E x x"
  shows "schema \<in> set U \<longrightarrow>
         (\<forall>id' formData. \<exists>n r. toIdSchemaInternal E n schema idPrefix idSeparator id' rootSchema
                                 formData recurseList = Some r)"
proof (induction recurseList schema
    rule: lex2_induct [where f = "\<lambda>rl s. card (set U - set rl)" and g = "\<lambda>rl s. size s"])
  case (1 recurseList schema)
  have IH: "\<exists>n r. toIdSchemaInternal E n s idPrefix idSeparator i rootSchema fd rl = Some r"
    if "s \<in> set U"
      "card (set U - set rl) < card (set U - set recurseList)
       \<or> (rl = recurseList \<and> size s < size schema)"
    for rl s i fd
    using that 1 [of rl s] by blast
  show ?case
  proof (intro impI allI)
  fix id' formData
  assume mem: "schema \<in> set U"
  show "\<exists>n r. toIdSchemaInternal E n schema idPrefix idSeparator id' rootSchema formData
                recurseList = Some r"
  proof (cases rule: builder_cases [of E schema rootSchema formData recurseList])
    case leaf
    then show ?thesis using toIdSchemaInternal_leaf by blast
  next
    case (thrown e)
    then show ?thesis using toIdSchemaInternal_throws by blast
  next
    case (delegated schema' recurseList')
    have "\<exists>n r. toIdSchemaInternal E n schema' idPrefix idSeparator id' rootSchema formData recurseList'
               = Some r"
    proof (cases "retrieveStep E schema rootSchema formData recurseList = Inr None")
      case True
      with delegated have items: "hasKey ITEMS_KEY schema \<and> \<not> truthy (get (get schema ITEMS_KEY) REF_KEY)"
        and eq: "schema' = get schema ITEMS_KEY" "recurseList' = recurseList"
        and obj: "typeof_object schema"
        by (auto simp: delegate_def split: if_splits)
      from closedUnder_items [OF closed mem] items eq have "schema' \<in> set U" by simp
      moreover from items obj eq have "size schema' < size schema" by (simp add: size_get)
      ultimately show ?thesis using IH [of schema' recurseList'] eq by simp
    next
      case False
      with delegated have st: "retrieveStep E schema rootSchema formData recurseList = Inr (Some schema')"
        and eq: "recurseList' = concat_js recurseList schema'"
        by (auto simp: delegate_def split: if_splits sum.splits option.splits)
      from st have kw: "hasKey REF_KEY schema \<or> hasKey DEPENDENCIES_KEY schema \<or> hasKey ALL_OF_KEY schema"
        and r: "retrieveSchema E schema rootSchema formData = Inr schema'"
        and miss: "\<not> list_ex (\<lambda>item. deepEquals E item schema') recurseList"
        by (auto simp: retrieveStep_def split: if_splits sum.splits)
      from closedUnder_retrieve [OF closed mem kw r] have in_U: "schema' \<in> set U" .
      from miss refl have fresh: "schema' \<notin> set recurseList"
        by (auto simp: list_ex_iff)
      show ?thesis
      proof (cases "\<exists>ys. schema' = JArr ys")
        case True
        then have "isLeaf E schema' rootSchema formData recurseList'"
          using isLeaf_JArr by blast
        then show ?thesis using toIdSchemaInternal_leaf by blast
      next
        case False
        then have "recurseList' = recurseList @ [schema']" using eq by (cases schema') auto
        then have "set U - set recurseList' = (set U - set recurseList) - {schema'}" by auto
        moreover have "schema' \<in> set U - set recurseList" using in_U fresh by simp
        ultimately have "card (set U - set recurseList') < card (set U - set recurseList)"
          using card_Diff1_less [of "set U - set recurseList" schema'] by simp
        then show ?thesis using IH [of schema' recurseList'] in_U by simp
      qed
    qed
    then obtain n r where
      "toIdSchemaInternal E n schema' idPrefix idSeparator id' rootSchema formData recurseList'
       = Some r" by blast
    then have "toIdSchemaInternal E (Suc n) schema idPrefix idSeparator id' rootSchema formData
                 recurseList = Some r"
      by (simp add: toIdSchemaInternal_delegate [OF delegated])
    then show ?thesis by blast
  next
    case object
    let ?ps = "forInProps (get schema PROPERTIES_KEY)"
    have "\<exists>n r. propertyBody E n idPrefix idSeparator rootSchema formData recurseList name field a
                = Some r"
      if "(name, field) \<in> set ?ps" for name field a
    proof (cases "fieldId a idSeparator name")
      case (Inl e)
      then have "propertyBody E 0 idPrefix idSeparator rootSchema formData recurseList name field a
                 = Some (Inl e)"
        by (simp add: propertyBody_def)
      then show ?thesis by blast
    next
      case (Inr fid)
      from that have f: "field \<in> snd ` set (ownProps (get schema PROPERTIES_KEY))"
        unfolding set_forInProps [symmetric] by (auto intro: rev_image_eqI)
      from object have "getSchemaType E schema = JStr ''object''" "hasKey PROPERTIES_KEY schema"
        by (simp_all add: objectCase_def)
      from closedUnder_properties [OF closed mem this that] have "field \<in> set U" .
      moreover have "size field < size schema"
        using size_ownProps [OF f] size_get [of PROPERTIES_KEY schema] object
        by (simp add: objectCase_def)
      ultimately obtain n r where
        "toIdSchemaInternal E n field idPrefix idSeparator (Some fid) rootSchema
           (getData E formData name) recurseList = Some r"
        using IH [of field recurseList] by blast
      then have "\<exists>x. propertyBody E n idPrefix idSeparator rootSchema formData recurseList name field a
                 = Some x"
        using Inr by (cases r) (simp_all add: propertyBody_def)
      then show ?thesis by blast
    qed
    then obtain n r where
      "forIn (propertyBody E n idPrefix idSeparator rootSchema formData recurseList) ?ps
         (newIdSchema (id_or id' idPrefix)) = Some r"
      using forIn_terminates by blast
    then have "toIdSchemaInternal E (Suc n) schema idPrefix idSeparator id' rootSchema formData
                 recurseList = Some r"
      by (simp add: toIdSchemaInternal_objectCase [OF object])
    then show ?thesis by blast
  qed
qed
qed

subsection \<open>The loop over the properties\<close>

lemma update_fresh: "k \<notin> fst ` set al \<Longrightarrow> AList.update k v al = al @ [(k, v)]"
  by (induction al) auto

lemma forIn_children:
  assumes "distinct (map fst ps)" and "ID_KEY \<notin> fst ` set ps" and "''__proto__'' \<notin> fst ` set ps"
    and "fst ` set ps \<inter> fst ` set kvs = {}"
    and "map_of kvs ID_KEY = Some (IdStr cur)"
    and "\<forall>(name, field) \<in> set ps.
           toIdSchemaInternal E n field idPrefix idSeparator (Some (cur @ idSeparator @ name))
             rootSchema (getData E formData name) recurseList = Some (Inr (child name))"
  shows "forIn (propertyBody E n idPrefix idSeparator rootSchema formData recurseList) ps (IdObj p kvs)
         = Some (Inr (IdObj p (kvs @ map (\<lambda>(name, field). (name, child name)) ps)))"
  using assms
proof (induction ps arbitrary: kvs)
  case Nil
  then show ?case by simp
next
  case (Cons q ps)
  obtain name field where q: "q = (name, field)" by (cases q)
  from Cons.prems q have fresh: "name \<notin> fst ` set kvs" and nid: "name \<noteq> ID_KEY"
    and np: "name \<noteq> ''__proto__''"
    by auto
  from Cons.prems(6) q have
    "toIdSchemaInternal E n field idPrefix idSeparator (Some (cur @ idSeparator @ name))
       rootSchema (getData E formData name) recurseList = Some (Inr (child name))"
    by simp
  with Cons.prems(5) np fresh
  have step: "propertyBody E n idPrefix idSeparator rootSchema formData recurseList name field
                (IdObj p kvs) = Some (Inr (IdObj p (kvs @ [(name, child name)])))"
    by (simp add: propertyBody_def fieldId_def update_fresh)
  have "forIn (propertyBody E n idPrefix idSeparator rootSchema formData recurseList) ps
          (IdObj p (kvs @ [(name, child name)]))
        = Some (Inr (IdObj p ((kvs @ [(name, child name)])
                                @ map (\<lambda>(name, field). (name, child name)) ps)))"
  proof (rule Cons.IH)
    show "distinct (map fst ps)" using Cons.prems(1) by simp
    show "ID_KEY \<notin> fst ` set ps" using Cons.prems(2) by simp
    show "''__proto__'' \<notin> fst ` set ps" using Cons.prems(3) by simp
    show "fst ` set ps \<inter> fst ` set (kvs @ [(name, child name)]) = {}"
      using Cons.prems(1,4) q by auto
    show "map_of (kvs @ [(name, child name)]) ID_KEY = Some (IdStr cur)"
      using Cons.prems(5) nid by (simp add: map_add_def)
    show "\<forall>(name, field) \<in> set ps.
           toIdSchemaInternal E n field idPrefix idSeparator (Some (cur @ idSeparator @ name))
             rootSchema (getData E formData name) recurseList = Some (Inr (child name))"
      using Cons.prems(6) by simp
  qed
  with step q show ?case by simp
qed


lemma string_schema_leaf:
  "toIdSchemaInternal E (Suc n) (JObj [(''type'', t)]) idPrefix idSeparator id' rootSchema formData
     recurseList = Some (Inr (IdObj None [(ID_KEY, IdStr (id_or id' idPrefix))]))"
proof -
  have "isLeaf E (JObj [(''type'', t)]) rootSchema formData recurseList"
    by (simp add: isLeaf_def retrieveStep_def)
  then show ?thesis by (simp add: toIdSchemaInternal_leaf newIdSchema_def)
qed

lemma currentId_assign: "name \<noteq> ID_KEY \<Longrightarrow> currentId (assign name child a) = currentId a"
  by (cases a) (simp_all add: update_conv')

lemma propertyBody_currentId:
  assumes "propertyBody E n idPrefix idSeparator rootSchema formData recurseList name field a
           = Some (Inr a')"
    and "name \<noteq> ID_KEY"
  shows "currentId a' = currentId a"
  using assms by (auto simp: propertyBody_def currentId_assign split: option.splits sum.splits)

lemma forIn_currentId:
  assumes "forIn (propertyBody E n idPrefix idSeparator rootSchema formData recurseList) ps a
           = Some (Inr t)"
    and "ID_KEY \<notin> fst ` set ps"
  shows "currentId t = currentId a"
  using assms
proof (induction ps arbitrary: a)
  case Nil
  then show ?case by simp
next
  case (Cons q ps)
  obtain name field where q: "q = (name, field)" by (cases q)
  from Cons.prems(1) q obtain a' where
    b: "propertyBody E n idPrefix idSeparator rootSchema formData recurseList name field a
        = Some (Inr a')"
    and r: "forIn (propertyBody E n idPrefix idSeparator rootSchema formData recurseList) ps a'
            = Some (Inr t)"
    by (auto split: option.splits sum.splits)
  from Cons.prems(2) q have "name \<noteq> ID_KEY" by auto
  with b have "currentId a' = currentId a" by (rule propertyBody_currentId)
  moreover from r Cons.prems(2) have "currentId t = currentId a'" by (intro Cons.IH) auto
  ultimately show ?case by simp
qed

lemma forIn_noThrow:
  assumes "forIn (propertyBody E n idPrefix idSeparator rootSchema formData recurseList) ps a
           = Some r"
    and "ID_KEY \<notin> fst ` set ps"
    and "currentId a = IdStr b"
    and "\<And>name field fid x. (name, field) \<in> set ps \<Longrightarrow>
           toIdSchemaInternal E n field idPrefix idSeparator (Some fid) rootSchema
             (getData E formData name) recurseList = Some x \<Longrightarrow> \<exists>t. x = Inr t"
  shows "\<exists>t. r = Inr t"
  using assms
proof (induction ps arbitrary: a)
  case Nil
  then show ?case by auto
next
  case (Cons q ps)
  obtain name field where q: "q = (name, field)" by (cases q)
  from Cons.prems(2) q have nid: "name \<noteq> ID_KEY" by auto
  from Cons.prems(3) have fid: "fieldId a idSeparator name = Inr (b @ idSeparator @ name)"
    by (rule fieldId_IdStr)
  show ?case
  proof (cases "toIdSchemaInternal E n field idPrefix idSeparator (Some (b @ idSeparator @ name))
                  rootSchema (getData E formData name) recurseList")
    case None
    with Cons.prems(1) q fid show ?thesis by (simp add: propertyBody_def)
  next
    case (Some x)
    have "(name, field) \<in> set (q # ps)" by (simp add: q)
    from Cons.prems(4) [OF this Some] obtain child where x: "x = Inr child" by blast
    let ?a' = "assign name child a"
    from Some x fid have
      b: "propertyBody E n idPrefix idSeparator rootSchema formData recurseList name field a
          = Some (Inr ?a')"
      by (simp add: propertyBody_def)
    with Cons.prems(1) q have
      r: "forIn (propertyBody E n idPrefix idSeparator rootSchema formData recurseList) ps ?a'
          = Some r"
      by simp
    from r show ?thesis
    proof (rule Cons.IH)
      show "ID_KEY \<notin> fst ` set ps" using Cons.prems(2) by simp
      show "currentId ?a' = IdStr b" using nid Cons.prems(3) by (simp add: currentId_assign)
      fix name' field' fid' x'
      assume "(name', field') \<in> set ps"
      then have "(name', field') \<in> set (q # ps)" by simp
      moreover assume "toIdSchemaInternal E n field' idPrefix idSeparator (Some fid') rootSchema
             (getData E formData name') recurseList = Some x'"
      ultimately show "\<exists>t. x' = Inr t" by (rule Cons.prems(4))
    qed
  qed
qed

lemma delegate_closed:
  assumes "closedUnder E rootSchema U" and "schema \<in> set U"
    and "delegate E schema rootSchema formData recurseList = Some (schema', recurseList')"
  shows "schema' \<in> set U"
proof (cases "retrieveStep E schema rootSchema formData recurseList = Inr None")
  case True
  with assms(3) have "hasKey ITEMS_KEY schema" "\<not> truthy (get (get schema ITEMS_KEY) REF_KEY)"
    and "schema' = get schema ITEMS_KEY"
    by (auto simp: delegate_def split: if_splits)
  with closedUnder_items [OF assms(1,2)] show ?thesis by simp
next
  case False
  with assms(3) have st: "retrieveStep E schema rootSchema formData recurseList = Inr (Some schema')"
    by (auto simp: delegate_def split: if_splits sum.splits option.splits)
  then have "hasKey REF_KEY schema \<or> hasKey DEPENDENCIES_KEY schema \<or> hasKey ALL_OF_KEY schema"
    and "retrieveSchema E schema rootSchema formData = Inr schema'"
    by (auto simp: retrieveStep_def split: if_splits sum.splits)
  with closedUnder_retrieve [OF assms(1,2)] show ?thesis by blast
qed

lemma throwFree_throws:
  assumes "throwFree E rootSchema U" and "schema \<in> set U"
  shows "throws E schema rootSchema formData recurseList = None"
proof (cases "hasKey REF_KEY schema \<or> hasKey DEPENDENCIES_KEY schema \<or> hasKey ALL_OF_KEY schema")
  case True
  from throwFree_retrieve [OF assms True] obtain s' where
    "retrieveSchema E schema rootSchema formData = Inr s'" by blast
  moreover from assms have "schema \<noteq> JNull" by (rule throwFree_nonnull)
  ultimately show ?thesis by (simp add: throws_def retrieveStep_def)
next
  case False
  moreover from assms have "schema \<noteq> JNull" by (rule throwFree_nonnull)
  ultimately show ?thesis by (simp add: throws_def retrieveStep_def)
qed

lemma no_throw:
  assumes closed: "closedUnder E rootSchema U" and free: "throwFree E rootSchema U"
  shows "schema \<in> set U \<Longrightarrow>
         toIdSchemaInternal E n schema idPrefix idSeparator id' rootSchema formData recurseList
         = Some r \<Longrightarrow> \<exists>t. r = Inr t"
proof (induction n arbitrary: schema id' formData recurseList r)
  case 0
  then show ?case by simp
next
  case (Suc n)
  show ?case
  proof (cases rule: builder_cases [of E schema rootSchema formData recurseList])
    case leaf
    with Suc.prems(2) show ?thesis by (auto simp: toIdSchemaInternal_leaf)
  next
    case (thrown e)
    with throwFree_throws [OF free Suc.prems(1)] show ?thesis by simp
  next
    case (delegated schema' recurseList')
    from closed Suc.prems(1) delegated have "schema' \<in> set U" by (rule delegate_closed)
    moreover from delegated Suc.prems(2) have
      "toIdSchemaInternal E n schema' idPrefix idSeparator id' rootSchema formData recurseList'
       = Some r"
      by (simp add: toIdSchemaInternal_delegate)
    ultimately show ?thesis by (rule Suc.IH)
  next
    case object
    from object have oc: "getSchemaType E schema = JStr ''object''" "hasKey PROPERTIES_KEY schema"
      by (simp_all add: objectCase_def)
    from Suc.prems(2) object have
      "forIn (propertyBody E n idPrefix idSeparator rootSchema formData recurseList)
         (forInProps (get schema PROPERTIES_KEY)) (newIdSchema (id_or id' idPrefix)) = Some r"
      by (simp add: toIdSchemaInternal_objectCase)
    then show ?thesis
    proof (rule forIn_noThrow)
      show "ID_KEY \<notin> fst ` set (forInProps (get schema PROPERTIES_KEY))"
        using free Suc.prems(1) oc by (rule throwFree_names)
      show "currentId (newIdSchema (id_or id' idPrefix)) = IdStr (id_or id' idPrefix)"
        by (simp add: newIdSchema_def)
      fix name field fid x
      assume "(name, field) \<in> set (forInProps (get schema PROPERTIES_KEY))"
      with closed Suc.prems(1) oc have "field \<in> set U" by (rule closedUnder_properties)
      moreover assume "toIdSchemaInternal E n field idPrefix idSeparator (Some fid) rootSchema
             (getData E formData name) recurseList = Some x"
      ultimately show "\<exists>t. x = Inr t" by (rule Suc.IH)
    qed
  qed
qed

lemma root_id_aux:
  assumes "toIdSchemaInternal E n schema idPrefix idSeparator id' rootSchema formData recurseList
           = Some (Inr t)"
    and "\<And>k s r. delegates E k schema rootSchema formData recurseList = Some (s, r) \<Longrightarrow>
           objectCase E s rootSchema formData r \<Longrightarrow>
           ID_KEY \<notin> fst ` set (ownProps (get s PROPERTIES_KEY))"
  shows "currentId t = IdStr (id_or id' idPrefix)"
  using assms
proof (induction n arbitrary: schema recurseList)
  case 0
  then show ?case by simp
next
  case (Suc n)
  show ?case
  proof (cases rule: builder_cases [of E schema rootSchema formData recurseList])
    case leaf
    with Suc.prems(1) show ?thesis by (auto simp: toIdSchemaInternal_leaf newIdSchema_def)
  next
    case (thrown e)
    with Suc.prems(1) show ?thesis by (simp add: toIdSchemaInternal_throws)
  next
    case (delegated schema' recurseList')
    with Suc.prems(1) have
      "toIdSchemaInternal E n schema' idPrefix idSeparator id' rootSchema formData recurseList'
       = Some (Inr t)"
      by (simp add: toIdSchemaInternal_delegate)
    moreover have "ID_KEY \<notin> fst ` set (ownProps (get s PROPERTIES_KEY))"
      if "delegates E k schema' rootSchema formData recurseList' = Some (s, r)"
        and "objectCase E s rootSchema formData r" for k s r
      using Suc.prems(2) [of "Suc k" s r] that delegated by simp
    ultimately show ?thesis by (rule Suc.IH)
  next
    case object
    from Suc.prems(2) [of 0 schema recurseList] object
    have "ID_KEY \<notin> fst ` set (forInProps (get schema PROPERTIES_KEY))"
      by (simp add: set_forInProps)
    moreover from Suc.prems(1) object have
      "forIn (propertyBody E n idPrefix idSeparator rootSchema formData recurseList)
         (forInProps (get schema PROPERTIES_KEY)) (newIdSchema (id_or id' idPrefix)) = Some (Inr t)"
      by (simp add: toIdSchemaInternal_objectCase)
    ultimately have "currentId t = currentId (newIdSchema (id_or id' idPrefix))"
      using forIn_currentId by blast
    then show ?thesis by (simp add: newIdSchema_def)
  qed
qed

lemma empty_schema_leaf:
  "toIdSchemaInternal E (Suc n) (JObj []) idPrefix idSeparator id' rootSchema formData
     recurseList = Some (Inr (IdObj None [(ID_KEY, IdStr (id_or id' idPrefix))]))"
proof -
  have "isLeaf E (JObj []) rootSchema formData recurseList"
    by (simp add: isLeaf_def retrieveStep_def)
  then show ?thesis by (simp add: toIdSchemaInternal_leaf newIdSchema_def)
qed

subsection \<open>Distinct identifiers\<close>

lemma below_not_self: "below b c name i \<Longrightarrow> i \<noteq> b"
  by (auto simp: below_def)

lemma below_prefix: "below b c name i \<Longrightarrow> \<exists>r. i = b @ c # r"
  by (auto simp: below_def)

lemma below_child:
  assumes "i = b @ c # name \<or> (\<exists>r. i = (b @ c # name) @ c # r)"
  shows "below b c name i"
  using assms by (auto simp: below_def)

lemma below_name:
  assumes "below b c n i" and "c \<notin> set n"
  shows "takeWhile (\<lambda>x. x \<noteq> c) (drop (Suc (length b)) i) = n"
proof -
  from assms(1) obtain rest where i: "i = b @ c # n @ rest" and r: "rest = [] \<or> hd rest = c \<and> rest \<noteq> []"
    by (auto simp: below_def)
  have "drop (Suc (length b)) i = n @ rest" using i by simp
  moreover have "takeWhile (\<lambda>x. x \<noteq> c) (n @ rest) = n"
  proof -
    have "takeWhile (\<lambda>x. x \<noteq> c) (n @ rest) = n @ takeWhile (\<lambda>x. x \<noteq> c) rest"
      using assms(2) by (intro takeWhile_append2) auto
    moreover have "takeWhile (\<lambda>x. x \<noteq> c) rest = []"
      using r by (cases rest) auto
    ultimately show ?thesis by simp
  qed
  ultimately show ?thesis by simp
qed

lemma below_disjoint:
  assumes "below b c n i" and "below b c n' i" and "c \<notin> set n" and "c \<notin> set n'"
  shows "n = n'"
  using below_name [OF assms(1,3)] below_name [OF assms(2,4)] by simp

lemma ids_update_subset:
  "set (concat (map (\<lambda>kv. ids (snd kv)) (AList.update k v kvs)))
   \<subseteq> set (concat (map (\<lambda>kv. ids (snd kv)) kvs)) \<union> set (ids v)"
  by (induction kvs) auto

lemma ids_update_distinct:
  assumes "distinct (concat (map (\<lambda>kv. ids (snd kv)) kvs))" and "distinct (ids v)"
    and "set (concat (map (\<lambda>kv. ids (snd kv)) kvs)) \<inter> set (ids v) = {}"
  shows "distinct (concat (map (\<lambda>kv. ids (snd kv)) (AList.update k v kvs)))"
  using assms
proof (induction kvs)
  case Nil
  then show ?case by simp
next
  case (Cons kv kvs)
  show ?case
  proof (cases "fst kv = k")
    case True
    with Cons.prems show ?thesis by auto
  next
    case False
    from Cons.prems have "distinct (concat (map (\<lambda>kv. ids (snd kv)) (AList.update k v kvs)))"
      by (intro Cons.IH) auto
    moreover have "set (ids (snd kv)) \<inter> set (concat (map (\<lambda>kv. ids (snd kv)) (AList.update k v kvs))) = {}"
      using ids_update_subset [of k v kvs] Cons.prems by auto
    ultimately show ?thesis using False Cons.prems by auto
  qed
qed

lemma ids_assign_subset: "set (ids (assign name ch acc)) \<subseteq> set (ids acc) \<union> set (ids ch)"
proof (cases acc)
  case (IdObj p kvs)
  then show ?thesis using ids_update_subset [of name ch kvs] by auto
qed simp

lemma ids_assign_distinct:
  assumes "distinct (ids acc)" and "distinct (ids ch)" and "set (ids acc) \<inter> set (ids ch) = {}"
  shows "distinct (ids (assign name ch acc))"
proof (cases acc)
  case (IdStr s)
  with assms show ?thesis by simp
next
  case (IdObj p kvs)
  let ?own = "concat (map (\<lambda>kv. ids (snd kv)) kvs)"
  from assms IdObj have d: "distinct ?own" and i: "set ?own \<inter> set (ids ch) = {}" by auto
  show ?thesis
  proof (cases "name = ''__proto__''")
    case True
    with IdObj assms(2) d i show ?thesis by auto
  next
    case False
    have "distinct (concat (map (\<lambda>kv. ids (snd kv)) (AList.update name ch kvs)))"
      using d assms(2) i by (rule ids_update_distinct)
    moreover have "set (concat (map (\<lambda>kv. ids (snd kv)) (AList.update name ch kvs)))
                   \<subseteq> set ?own \<union> set (ids ch)"
      by (rule ids_update_subset)
    ultimately show ?thesis using False IdObj assms by (cases p) auto
  qed
qed

lemma goodNames_ownProps:
  assumes "goodNames c p" and "v \<in> snd ` set (ownProps p)"
  shows "goodNames c v"
proof (cases p)
  case (JObj kvs)
  with assms show ?thesis by auto
next
  case (JArr xs)
  with assms show ?thesis by (auto dest: set_zip_rightD)
next
  case (JStr s)
  with assms show ?thesis by (auto dest!: set_zip_rightD)
qed (use assms in auto)

lemma goodNames_get: "goodNames c s \<Longrightarrow> goodNames c (get s k)"
proof (cases s)
  case (JObj kvs)
  assume g: "goodNames c s"
  show ?thesis
  proof (cases "map_of kvs k")
    case None
    with JObj show ?thesis by simp
  next
    case (Some v)
    then have "(k, v) \<in> set kvs" by (rule map_of_SomeD)
    with g JObj have "goodNames c v" by auto
    with Some JObj show ?thesis by simp
  qed
next
  case (JArr xs)
  assume g: "goodNames c s"
  have "goodNames c v" if "map_of (zip (map show_nat [0..<length xs]) xs) k = Some v" for v
  proof -
    from that have "v \<in> set xs" by (auto dest!: map_of_SomeD set_zip_rightD)
    with g JArr show ?thesis by simp
  qed
  with JArr show ?thesis by (auto split: option.splits)
next
  case (JStr x)
  have "goodNames c v" if "map_of (zip (map show_nat [0..<length x]) (map (\<lambda>c. JStr [c]) x)) k = Some v" for v
  proof -
    from that have "v \<in> set (map (\<lambda>c. JStr [c]) x)" by (auto dest!: map_of_SomeD set_zip_rightD)
    then show ?thesis by auto
  qed
  with JStr show ?thesis by (auto split: option.splits)
qed auto

lemma forIn_ids:
  assumes children: "\<And>name field ch. (name, field) \<in> set ps \<Longrightarrow>
             toIdSchemaInternal E n field idPrefix [c] (Some (b @ c # name)) rootSchema
               (getData E formData name) recurseList = Some (Inr ch) \<Longrightarrow>
             distinct (ids ch) \<and> (\<forall>i \<in> set (ids ch). below b c name i)"
    and names: "distinct (map fst ps)" "\<forall>nm \<in> fst ` set ps. c \<notin> set nm \<and> nm \<noteq> ID_KEY"
    and seen: "fst ` set ps \<inter> seen = {}" "\<forall>nm \<in> seen. c \<notin> set nm"
    and cur: "currentId acc = IdStr b"
    and inv: "distinct (ids acc)" "\<forall>i \<in> set (ids acc). i = b \<or> (\<exists>nm \<in> seen. below b c nm i)"
    and run: "forIn (propertyBody E n idPrefix [c] rootSchema formData recurseList) ps acc
              = Some (Inr t)"
  shows "distinct (ids t) \<and>
         (\<forall>i \<in> set (ids t). i = b \<or> (\<exists>nm \<in> seen \<union> fst ` set ps. below b c nm i))"
  using assms
proof (induction ps arbitrary: acc seen)
  case Nil
  then show ?case by simp
next
  case (Cons q ps)
  obtain name field where q: "q = (name, field)" by (cases q)
  from Cons.prems(9) q obtain acc' where
    body: "propertyBody E n idPrefix [c] rootSchema formData recurseList name field acc
           = Some (Inr acc')"
    and rest: "forIn (propertyBody E n idPrefix [c] rootSchema formData recurseList) ps acc'
               = Some (Inr t)"
    by (auto split: option.splits sum.splits)
  from body Cons.prems(6) obtain ch where
    call: "toIdSchemaInternal E n field idPrefix [c] (Some (b @ c # name)) rootSchema
             (getData E formData name) recurseList = Some (Inr ch)"
    and acc': "acc' = assign name ch acc"
    by (auto simp: propertyBody_def fieldId_def split: option.splits sum.splits)
  from Cons.prems(1) [of name field ch] q call
  have ch: "distinct (ids ch)" "\<forall>i \<in> set (ids ch). below b c name i" by auto
  from Cons.prems(3) q have nm: "c \<notin> set name" "name \<noteq> ID_KEY" by auto
  from Cons.prems(4) q have fresh: "name \<notin> seen" by auto
  have disj: "set (ids acc) \<inter> set (ids ch) = {}"
  proof (rule ccontr)
    assume "set (ids acc) \<inter> set (ids ch) \<noteq> {}"
    then obtain i where i: "i \<in> set (ids acc)" "i \<in> set (ids ch)" by auto
    from i(2) ch(2) have bl: "below b c name i" by simp
    from i(1) Cons.prems(8) have "i = b \<or> (\<exists>nm \<in> seen. below b c nm i)" by simp
    then show False
    proof
      assume "i = b"
      with bl show False using below_not_self by blast
    next
      assume "\<exists>nm \<in> seen. below b c nm i"
      then obtain nm' where nm': "nm' \<in> seen" "below b c nm' i" by blast
      from nm'(1) Cons.prems(5) have "c \<notin> set nm'" by simp
      from below_disjoint [OF bl nm'(2) nm(1) this] nm'(1) fresh show False by simp
    qed
  qed
  have d': "distinct (ids acc')"
    unfolding acc' using Cons.prems(7) ch(1) disj by (rule ids_assign_distinct)
  have sub: "set (ids acc') \<subseteq> set (ids acc) \<union> set (ids ch)"
    unfolding acc' by (rule ids_assign_subset)
  have inv': "\<forall>i \<in> set (ids acc'). i = b \<or> (\<exists>nm \<in> insert name seen. below b c nm i)"
  proof
    fix i assume "i \<in> set (ids acc')"
    with sub have "i \<in> set (ids acc) \<or> i \<in> set (ids ch)" by auto
    then show "i = b \<or> (\<exists>nm \<in> insert name seen. below b c nm i)"
      using Cons.prems(8) ch(2) by auto
  qed
  have cur': "currentId acc' = IdStr b"
    unfolding acc' using nm(2) Cons.prems(6) by (simp add: currentId_assign)
  have "distinct (ids t) \<and>
        (\<forall>i \<in> set (ids t). i = b \<or> (\<exists>nm \<in> insert name seen \<union> fst ` set ps. below b c nm i))"
  proof (rule Cons.IH [OF _ _ _ _ _ cur' d' inv' rest])
    fix name' field' ch'
    assume "(name', field') \<in> set ps"
      and "toIdSchemaInternal E n field' idPrefix [c] (Some (b @ c # name')) rootSchema
             (getData E formData name') recurseList = Some (Inr ch')"
    then show "distinct (ids ch') \<and> (\<forall>i \<in> set (ids ch'). below b c name' i)"
      using Cons.prems(1) [of name' field' ch'] by simp
  next
    show "distinct (map fst ps)" using Cons.prems(2) by simp
    show "\<forall>nm \<in> fst ` set ps. c \<notin> set nm \<and> nm \<noteq> ID_KEY" using Cons.prems(3) by simp
    show "fst ` set ps \<inter> insert name seen = {}" using Cons.prems(2,4) q by auto
    show "\<forall>nm \<in> insert name seen. c \<notin> set nm" using Cons.prems(5) nm(1) by simp
  qed
  then show ?case using q by auto
qed

lemma objectCase_JObj:
  assumes "objectCase E schema rootSchema formData recurseList"
  obtains kvs where "schema = JObj kvs"
proof (cases schema)
  case (JArr xs)
  with assms have "hasKey PROPERTIES_KEY (JArr xs)" by (simp add: objectCase_def del: hasKey.simps)
  then show ?thesis by (simp del: hasKey.simps)
qed (use assms in \<open>auto simp: objectCase_def\<close>)

lemma ids_distinct_aux:
  assumes retr: "\<And>s f s'. goodNames c s \<Longrightarrow> retrieveSchema E s rootSchema f = Inr s'
                   \<Longrightarrow> goodNames c s'"
    and run: "toIdSchemaInternal E n schema idPrefix [c] id' rootSchema formData recurseList
              = Some (Inr t)"
    and good: "goodNames c schema"
  shows "distinct (ids t) \<and>
         (\<forall>i \<in> set (ids t). i = id_or id' idPrefix \<or> (\<exists>r. i = id_or id' idPrefix @ c # r))"
  using run good
proof (induction n arbitrary: schema id' formData recurseList t)
  case 0
  then show ?case by simp
next
  case (Suc n)
  let ?b = "id_or id' idPrefix"
  show ?case
  proof (cases rule: builder_cases [of E schema rootSchema formData recurseList])
    case leaf
    with Suc.prems(1) show ?thesis by (auto simp: toIdSchemaInternal_leaf newIdSchema_def)
  next
    case (thrown e)
    with Suc.prems(1) show ?thesis by (simp add: toIdSchemaInternal_throws)
  next
    case (delegated schema' recurseList')
    have "goodNames c schema'"
    proof (cases "retrieveStep E schema rootSchema formData recurseList")
      case (Inl e)
      with delegated show ?thesis by (simp add: delegate_def split: if_splits)
    next
      case (Inr a)
      show ?thesis
      proof (cases a)
        case None
        with Inr delegated have "schema' = get schema ITEMS_KEY"
          by (auto simp: delegate_def split: if_splits)
        with Suc.prems(2) show ?thesis by (simp add: goodNames_get)
      next
        case (Some s')
        with Inr delegated have "schema' = s'" by (auto simp: delegate_def split: if_splits)
        moreover from Inr Some have "retrieveSchema E schema rootSchema formData = Inr s'"
          by (auto simp: retrieveStep_def split: if_splits sum.splits)
        ultimately show ?thesis using retr Suc.prems(2) by blast
      qed
    qed
    moreover from delegated Suc.prems(1) have
      "toIdSchemaInternal E n schema' idPrefix [c] id' rootSchema formData recurseList'
       = Some (Inr t)"
      by (simp add: toIdSchemaInternal_delegate)
    ultimately show ?thesis using Suc.IH by blast
  next
    case object
    let ?ps = "forInProps (get schema PROPERTIES_KEY)"
    from object obtain kvs where kvs: "schema = JObj kvs" by (rule objectCase_JObj)
    with Suc.prems(2) have ok: "namesOk c (map fst (ownProps (get schema PROPERTIES_KEY)))"
      by simp
    then have dist: "distinct (map fst ?ps)"
      by (simp add: namesOk_def distinct_forInProps)
    from ok have names: "\<forall>nm \<in> fst ` set ?ps. c \<notin> set nm \<and> nm \<noteq> ID_KEY"
      by (simp add: namesOk_def set_forInProps)
    from Suc.prems(2) have gp: "goodNames c (get schema PROPERTIES_KEY)" by (rule goodNames_get)
    from Suc.prems(1) object have
      run: "forIn (propertyBody E n idPrefix [c] rootSchema formData recurseList) ?ps
              (newIdSchema ?b) = Some (Inr t)"
      by (simp add: toIdSchemaInternal_objectCase)
    have "distinct (ids t) \<and>
          (\<forall>i \<in> set (ids t). i = ?b \<or> (\<exists>nm \<in> {} \<union> fst ` set ?ps. below ?b c nm i))"
    proof (rule forIn_ids [OF _ _ _ _ _ _ _ _ run])
      fix name field ch
      assume m: "(name, field) \<in> set ?ps"
        and call: "toIdSchemaInternal E n field idPrefix [c] (Some (?b @ c # name)) rootSchema
                     (getData E formData name) recurseList = Some (Inr ch)"
      from m have "field \<in> snd ` set (ownProps (get schema PROPERTIES_KEY))"
        unfolding set_forInProps [symmetric] by (auto intro: rev_image_eqI)
      with gp have "goodNames c field" by (rule goodNames_ownProps)
      from Suc.IH [OF call this]
      have "distinct (ids ch)"
        and "\<forall>i \<in> set (ids ch). i = ?b @ c # name \<or> (\<exists>r. i = (?b @ c # name) @ c # r)"
        by simp_all
      then show "distinct (ids ch) \<and> (\<forall>i \<in> set (ids ch). below ?b c name i)"
        using below_child by blast
    next
      show "distinct (map fst ?ps)" by (rule dist)
      show "\<forall>nm \<in> fst ` set ?ps. c \<notin> set nm \<and> nm \<noteq> ID_KEY" by (rule names)
      show "fst ` set ?ps \<inter> {} = {}" by simp
      show "\<forall>nm \<in> {}. c \<notin> set nm" by simp
      show "currentId (newIdSchema ?b) = IdStr ?b" by (simp add: newIdSchema_def)
      show "distinct (ids (newIdSchema ?b))" by (simp add: newIdSchema_def)
      show "\<forall>i \<in> set (ids (newIdSchema ?b)). i = ?b \<or> (\<exists>nm \<in> {}. below ?b c nm i)"
        by (simp add: newIdSchema_def)
    qed
    then show ?thesis using below_prefix by blast
  qed
qed

subsection \<open>The store of arrays\<close>

lemma matchesI_Some: "y = Some r \<Longrightarrow> matches h (Some (r, h @ ext)) y"
  by (simp add: matches_def)





section \<open>The claims\<close>

subsection \<open>Claim C1\<close>

text \<open>
  Claim C1, as stated, fails: the build of a schema with a cycle can throw. The schema
  with the self-referential property \<^verbatim>\<open>self\<close> and a property whose reference points to
  nothing throws what retrieval throws; the schema whose property \<^verbatim>\<open>$id\<close> has a
  property \<^verbatim>\<open>toString\<close> throws a \<^verbatim>\<open>TypeError\<close> when line 78 computes the identifier
  of the next property. Both do so at every recursion depth from 3 on.
\<close>

theorem cycle_throws_counterexample:
  "(\<forall>n. toIdSchema derefEnv (Suc (Suc (Suc n))) danglingCycle None cycleRoot JUndefined None None
        = Some (Inl ReferenceError)) \<and>
   (\<forall>n. toIdSchema derefEnv (Suc (Suc (Suc n))) toStringCycle None cycleRoot JUndefined None None
        = Some (Inl TypeError))"
proof -
  have d: "delegate derefEnv cycleNode cycleRoot f [] = Some (cycleNode, [cycleNode])" for f
    by (simp add: delegate_def retrieveStep_def derefEnv_def cycleRoot_def cycleNode_def)
  have l: "isLeaf derefEnv cycleNode cycleRoot f [cycleNode]" for f
    by (simp add: isLeaf_def retrieveStep_def derefEnv_def classify_def cycleRoot_def
        cycleNode_def)
  have self: "toIdSchemaInternal derefEnv (Suc (Suc 0)) cycleNode ''root'' ''_'' i cycleRoot f []
              = Some (Inr (newIdSchema (id_or i ''root'')))" for i f
    by (simp add: toIdSchemaInternal_delegate [OF d] toIdSchemaInternal_leaf [OF l])
  have t: "throws derefEnv (JObj [(REF_KEY, JStr ''#/defs/missing'')]) cycleRoot f []
           = Some ReferenceError" for f
    by (simp add: throws_def retrieveStep_def derefEnv_def cycleRoot_def)
  have other: "toIdSchemaInternal derefEnv (Suc (Suc 0)) (JObj [(REF_KEY, JStr ''#/defs/missing'')])
                 ''root'' ''_'' i cycleRoot f [] = Some (Inl ReferenceError)" for i f
    by (simp add: toIdSchemaInternal_throws [OF t])
  have o1: "objectCase derefEnv danglingCycle cycleRoot JUndefined []"
    by (simp add: objectCase_def retrieveStep_def derefEnv_def classify_def danglingCycle_def)
  have p1: "forInProps (get danglingCycle PROPERTIES_KEY)
            = [(''self'', cycleNode), (''other'', JObj [(REF_KEY, JStr ''#/defs/missing'')])]"
    by (simp add: danglingCycle_def forInOrder_def isIndex_def)
  have 1: "toIdSchemaInternal derefEnv (Suc (Suc (Suc 0))) danglingCycle ''root'' ''_'' None
             cycleRoot JUndefined [] = Some (Inl ReferenceError)"
    by (simp add: toIdSchemaInternal_objectCase [OF o1] p1)
       (simp add: propertyBody_def fieldId_def self other newIdSchema_def forInOrder_def isIndex_def)
  let ?idProp = "JObj [(''type'', JStr ''object''),
                       (PROPERTIES_KEY, JObj [(''toString'', JObj [])])]"
  have o2: "objectCase derefEnv toStringCycle cycleRoot JUndefined []"
    by (simp add: objectCase_def retrieveStep_def derefEnv_def classify_def toStringCycle_def)
  have p2: "forInProps (get toStringCycle PROPERTIES_KEY) = [(ID_KEY, ?idProp), (''self'', cycleNode)]"
    by (simp add: toStringCycle_def forInOrder_def isIndex_def)
  have o3: "objectCase derefEnv ?idProp cycleRoot f []" for f
    by (simp add: objectCase_def retrieveStep_def derefEnv_def classify_def)
  have 3: "toIdSchemaInternal derefEnv (Suc (Suc 0)) ?idProp ''root'' ''_'' (Some ''root_$id'')
             cycleRoot f []
           = Some (Inr (IdObj None [(ID_KEY, IdStr ''root_$id''),
                                    (''toString'', IdObj None [(ID_KEY, IdStr ''root_$id_toString'')])]))"
    for f
    by (simp add: toIdSchemaInternal_objectCase [OF o3])
       (simp add: propertyBody_def fieldId_def empty_schema_leaf newIdSchema_def forInOrder_def
          isIndex_def)
  have 2: "toIdSchemaInternal derefEnv (Suc (Suc (Suc 0))) toStringCycle ''root'' ''_'' None
             cycleRoot JUndefined [] = Some (Inl TypeError)"
    by (simp add: toIdSchemaInternal_objectCase [OF o2] p2)
       (simp add: propertyBody_def fieldId_def 3 newIdSchema_def forInOrder_def isIndex_def)
  have "toIdSchemaInternal derefEnv (Suc (Suc (Suc n))) danglingCycle ''root'' ''_'' None
          cycleRoot JUndefined [] = Some (Inl ReferenceError)" for n
    by (rule toIdSchemaInternal_mono [OF 1]) simp
  moreover
  have "toIdSchemaInternal derefEnv (Suc (Suc (Suc n))) toStringCycle ''root'' ''_'' None
          cycleRoot JUndefined [] = Some (Inl TypeError)" for n
    by (rule toIdSchemaInternal_mono [OF 2]) simp
  ultimately show ?thesis by (simp add: toIdSchema_def)
qed

text \<open>
  Claim C1, amended. Let \<open>U\<close> be a finite collection of schemas that holds the schema and
  is closed under the steps of the builder for this root schema: what retrieval returns
  for a member with a reference, dependency or allOf keyword is a member, and the items
  child the builder descends into and the properties of an object-classified member are
  members. A schema with a self- or mutually-referential cycle has such a collection:
  the nodes on the cycle and below them. When moreover deepEquals relates every value to
  itself, the build terminates: at every sufficient recursion depth it has one and the
  same outcome, a tree or a throw, for every identifier, form data and recursion list.
  When in addition nothing in the collection can throw (null is no member, retrieval
  succeeds on every member with one of the three keywords, no object-classified member
  declares a property \<^verbatim>\<open>$id\<close>), the outcome is a tree. The mechanism: when the
  retrieved schema equals an entry of the recursion list, the builder makes no call on
  the retrieved schema and goes on with lines 62 to 95 on the schema it was given.
\<close>

theorem cycle_terminates:
  assumes "closedUnder E rootSchema U" and "schema \<in> set U" and "\<forall>x. deepEquals E x x"
  shows "(\<exists>n r. \<forall>m\<ge>n. toIdSchemaInternal E m schema idPrefix idSeparator id' rootSchema formData
                          recurseList = Some r) \<and>
         (throwFree E rootSchema U \<longrightarrow>
            (\<exists>n t. \<forall>m\<ge>n. toIdSchemaInternal E m schema idPrefix idSeparator id' rootSchema formData
                             recurseList = Some (Inr t))) \<and>
         (\<forall>schema' k.
            typeof_object schema \<and>
            (hasKey REF_KEY schema \<or> hasKey DEPENDENCIES_KEY schema \<or> hasKey ALL_OF_KEY schema) \<and>
            retrieveSchema E schema rootSchema formData = Inr schema' \<and>
            list_ex (\<lambda>item. deepEquals E item schema') recurseList \<longrightarrow>
            toIdSchemaInternal E (Suc k) schema idPrefix idSeparator id' rootSchema formData
              recurseList
            = afterRetrieve E k schema idPrefix idSeparator id' rootSchema formData recurseList)"
proof -
  from assms(3) have "\<And>x. deepEquals E x x" by simp
  from closed_terminates [OF assms(1) this] assms(2) obtain n r where
    n: "toIdSchemaInternal E n schema idPrefix idSeparator id' rootSchema formData recurseList
        = Some r"
    by blast
  have all: "\<forall>m\<ge>n. toIdSchemaInternal E m schema idPrefix idSeparator id' rootSchema formData
                  recurseList = Some r"
    using toIdSchemaInternal_mono [OF n] by blast
  then have 1: "\<exists>n r. \<forall>m\<ge>n. toIdSchemaInternal E m schema idPrefix idSeparator id' rootSchema
                  formData recurseList = Some r"
    by blast
  have 2: "\<exists>n t. \<forall>m\<ge>n. toIdSchemaInternal E m schema idPrefix idSeparator id' rootSchema formData
                             recurseList = Some (Inr t)"
    if free: "throwFree E rootSchema U"
  proof -
    from no_throw [OF assms(1) free assms(2) n] obtain t where "r = Inr t" by blast
    with all show ?thesis by blast
  qed
  have 3: "toIdSchemaInternal E (Suc k) schema idPrefix idSeparator id' rootSchema formData
              recurseList
            = afterRetrieve E k schema idPrefix idSeparator id' rootSchema formData recurseList"
    if h: "typeof_object schema \<and>
            (hasKey REF_KEY schema \<or> hasKey DEPENDENCIES_KEY schema \<or> hasKey ALL_OF_KEY schema) \<and>
            retrieveSchema E schema rootSchema formData = Inr schema' \<and>
            list_ex (\<lambda>item. deepEquals E item schema') recurseList"
    for schema' k
  proof -
    from h have "retrieveStep E schema rootSchema formData recurseList = Inr None"
      by (simp add: retrieveStep_def)
    moreover from h have "schema \<noteq> JNull" by auto
    ultimately show ?thesis using h by (simp add: toIdSchemaInternal_afterRetrieve)
  qed
  from 1 2 3 show ?thesis by blast
qed

theorem cycle_terminates_witness:
  "closedUnder derefEnv cycleRoot [cycleNode] \<and> cycleNode \<in> set [cycleNode] \<and>
   (\<forall>x. deepEquals derefEnv x x) \<and> throwFree derefEnv cycleRoot [cycleNode] \<and>
   (\<exists>n t. \<forall>m\<ge>n. toIdSchemaInternal derefEnv m cycleNode ''root'' ''_'' None cycleRoot JUndefined
                     [cycleNode] = Some (Inr t)) \<and>
   typeof_object cycleNode \<and> hasKey REF_KEY cycleNode \<and>
   retrieveSchema derefEnv cycleNode cycleRoot JUndefined = Inr cycleNode \<and>
   list_ex (\<lambda>item. deepEquals derefEnv item cycleNode) [cycleNode] \<and>
   toIdSchemaInternal derefEnv (Suc 0) cycleNode ''root'' ''_'' None cycleRoot JUndefined [cycleNode]
   = Some (Inr (IdObj None [(ID_KEY, IdStr ''root'')]))"
proof -
  have g: "retrieveSchema derefEnv cycleNode cycleRoot f = Inr cycleNode" for f
    by (simp add: derefEnv_def classify_def cycleRoot_def cycleNode_def)
  have c: "closedUnder derefEnv cycleRoot [cycleNode]"
    by (simp add: closedUnder_def g) (simp add: cycleNode_def)
  have tf: "throwFree derefEnv cycleRoot [cycleNode]"
    by (simp add: throwFree_def g) (simp add: cycleNode_def derefEnv_def classify_def)
  have r: "\<forall>x. deepEquals derefEnv x x" by (simp add: derefEnv_def)
  have m: "cycleNode \<in> set [cycleNode]" by simp
  have a: "afterRetrieve derefEnv 0 cycleNode ''root'' ''_'' None cycleRoot JUndefined [cycleNode]
           = Some (Inr (IdObj None [(ID_KEY, IdStr ''root'')]))"
    by (simp add: afterRetrieve_def cycleNode_def derefEnv_def classify_def newIdSchema_def)
  have k: "typeof_object cycleNode \<and> hasKey REF_KEY cycleNode" by (simp add: cycleNode_def)
  have e: "list_ex (\<lambda>item. deepEquals derefEnv item cycleNode) [cycleNode]"
    by (simp add: derefEnv_def)
  from cycle_terminates [OF c m r, of "''root''" "''_''" None JUndefined "[cycleNode]"]
  have "(\<exists>n t. \<forall>m\<ge>n. toIdSchemaInternal derefEnv m cycleNode ''root'' ''_'' None cycleRoot
                  JUndefined [cycleNode] = Some (Inr t)) \<and>
        toIdSchemaInternal derefEnv (Suc 0) cycleNode ''root'' ''_'' None cycleRoot JUndefined
          [cycleNode]
        = afterRetrieve derefEnv 0 cycleNode ''root'' ''_'' None cycleRoot JUndefined [cycleNode]"
    using tf k g e by blast
  with c m r tf k g e a show ?thesis by simp
qed

subsection \<open>Claim C2\<close>

text \<open>
  Claim C2, as stated, fails twice. The loop of line 76 visits the names that are array
  indices first, in ascending order: the properties declared in the order \<^verbatim>\<open>b\<close>,
  \<^verbatim>\<open>2\<close>, \<^verbatim>\<open>1\<close> are visited, and their trees created, in the order \<^verbatim>\<open>1\<close>, \<^verbatim>\<open>2\<close>,
  \<^verbatim>\<open>b\<close>. And a schema that is classified as object and declares the property \<^verbatim>\<open>q\<close>
  but also has an \<^verbatim>\<open>items\<close> child is built from that child: the builder never
  recurses into \<^verbatim>\<open>q\<close>, and the result is the single node \<^verbatim>\<open>{$id: "root"}\<close>.
\<close>

theorem declared_order_counterexample:
  "getSchemaType derefEnv orderSchema = JStr ''object'' \<and>
   ownProps (get orderSchema PROPERTIES_KEY) = [(''b'', JObj []), (''2'', JObj []), (''1'', JObj [])] \<and>
   forInProps (get orderSchema PROPERTIES_KEY) = [(''1'', JObj []), (''2'', JObj []), (''b'', JObj [])] \<and>
   toIdSchema derefEnv (Suc (Suc 0)) orderSchema None JUndefined JUndefined (Some ''root'') (Some ''_'')
   = Some (Inr (IdObj None [(ID_KEY, IdStr ''root''),
                            (''1'', IdObj None [(ID_KEY, IdStr ''root_1'')]),
                            (''2'', IdObj None [(ID_KEY, IdStr ''root_2'')]),
                            (''b'', IdObj None [(ID_KEY, IdStr ''root_b'')])])) \<and>
   getSchemaType derefEnv itemsObject = JStr ''object'' \<and>
   ownProps (get itemsObject PROPERTIES_KEY) = [(''q'', JObj [])] \<and>
   toIdSchema derefEnv (Suc (Suc 0)) itemsObject None JUndefined JUndefined (Some ''root'') (Some ''_'')
   = Some (Inr (IdObj None [(ID_KEY, IdStr ''root'')]))"
proof -
  have c: "getSchemaType derefEnv orderSchema = JStr ''object''"
    by (simp add: derefEnv_def classify_def orderSchema_def)
  have p: "ownProps (get orderSchema PROPERTIES_KEY)
           = [(''b'', JObj []), (''2'', JObj []), (''1'', JObj [])]"
    by (simp add: orderSchema_def)
  have i: "isIndex ''1''" "isIndex ''2''" "\<not> isIndex ''b''"
    by (simp_all add: isIndex_def indexVal_def digitVal_def)
  have v: "indexVal ''1'' = 1" "indexVal ''2'' = 2"
    by (simp_all add: indexVal_def digitVal_def)
  have f: "forInProps (get orderSchema PROPERTIES_KEY)
           = [(''1'', JObj []), (''2'', JObj []), (''b'', JObj [])]"
    by (simp add: orderSchema_def forInOrder_def i v)
  have o: "objectCase derefEnv orderSchema JUndefined JUndefined []"
    using c by (simp add: objectCase_def retrieveStep_def) (simp add: orderSchema_def)
  have 1: "toIdSchema derefEnv (Suc (Suc 0)) orderSchema None JUndefined JUndefined (Some ''root'')
             (Some ''_'')
           = Some (Inr (IdObj None [(ID_KEY, IdStr ''root''),
                            (''1'', IdObj None [(ID_KEY, IdStr ''root_1'')]),
                            (''2'', IdObj None [(ID_KEY, IdStr ''root_2'')]),
                            (''b'', IdObj None [(ID_KEY, IdStr ''root_b'')])]))"
    by (simp add: toIdSchema_def toIdSchemaInternal_objectCase [OF o] f)
       (simp add: propertyBody_def fieldId_def empty_schema_leaf newIdSchema_def)
  have c2: "getSchemaType derefEnv itemsObject = JStr ''object''"
    by (simp add: derefEnv_def classify_def itemsObject_def)
  have p2: "ownProps (get itemsObject PROPERTIES_KEY) = [(''q'', JObj [])]"
    by (simp add: itemsObject_def)
  have d: "delegate derefEnv itemsObject JUndefined JUndefined []
           = Some (JObj [(''type'', JStr ''string'')], [])"
    by (simp add: delegate_def retrieveStep_def itemsObject_def)
  have 2: "toIdSchema derefEnv (Suc (Suc 0)) itemsObject None JUndefined JUndefined (Some ''root'')
             (Some ''_'')
           = Some (Inr (IdObj None [(ID_KEY, IdStr ''root'')]))"
    by (simp add: toIdSchema_def toIdSchemaInternal_delegate [OF d] string_schema_leaf)
  from c p f 1 c2 p2 2 show ?thesis by simp
qed

text \<open>
  Claim C2, amended. In the object case (the node is classified as object, has
  \<^verbatim>\<open>properties\<close>, and neither the reference nor the items handling recursed) the build
  is the loop over the properties in the order of \<^verbatim>\<open>for ... in\<close>: the names that are
  array indices in ascending order, then the other names in the order in which the schema
  declares them, which is the declared order when no name is an array index. Each property
  schema is built with the identifier current identifier + separator + name, where the
  current identifier is the \<^verbatim>\<open>$id\<close> of the node under construction, with the member
  of the form data at that name, and with the recursion list of the node; the tree it
  returns is stored under the name. When the names are distinct and none is \<^verbatim>\<open>$id\<close>
  or \<^verbatim>\<open>__proto__\<close>, the current identifier is the identifier of the node throughout,
  and if every property build returns a tree, the result holds \<^verbatim>\<open>$id\<close> and then these
  trees in the order of the visits. For the schema of example scenario 1, under every
  environment that classifies it as object, the entry point with prefix \<^verbatim>\<open>root\<close> and
  separator \<^verbatim>\<open>_\<close> returns \<^verbatim>\<open>{$id: "root", a: {$id: "root_a"}, b: {$id: "root_b"}}\<close>.
\<close>

theorem object_properties:
  assumes "objectCase E schema rootSchema formData recurseList"
    and "ps = forInProps (get schema PROPERTIES_KEY)"
  shows "toIdSchemaInternal E (Suc n) schema idPrefix idSeparator id' rootSchema formData recurseList
         = forIn
             (\<lambda>name field idSchema.
                case fieldId idSchema idSeparator name of
                  Inl e \<Rightarrow> Some (Inl e)
                | Inr fid \<Rightarrow>
                    (case toIdSchemaInternal E n field idPrefix idSeparator (Some fid)
                            rootSchema (getData E formData name) recurseList of
                       None \<Rightarrow> None
                     | Some (Inl e) \<Rightarrow> Some (Inl e)
                     | Some (Inr child) \<Rightarrow> Some (Inr (assign name child idSchema))))
             ps (IdObj None [(ID_KEY, IdStr (id_or id' idPrefix))]) \<and>
         (\<forall>kvs. get schema PROPERTIES_KEY = JObj kvs \<longrightarrow>
            ps = sort_key (\<lambda>kv. indexVal (fst kv)) (filter (\<lambda>kv. isIndex (fst kv)) kvs)
                 @ filter (\<lambda>kv. \<not> isIndex (fst kv)) kvs \<and>
            ((\<forall>kv \<in> set kvs. \<not> isIndex (fst kv)) \<longrightarrow> ps = kvs)) \<and>
         (distinct (map fst ps) \<and> ID_KEY \<notin> fst ` set ps \<and> ''__proto__'' \<notin> fst ` set ps \<and>
          (\<forall>(name, field) \<in> set ps.
             toIdSchemaInternal E n field idPrefix idSeparator
               (Some (id_or id' idPrefix @ idSeparator @ name))
               rootSchema (getData E formData name) recurseList = Some (Inr (child name))) \<longrightarrow>
          toIdSchemaInternal E (Suc n) schema idPrefix idSeparator id' rootSchema formData
            recurseList
          = Some (Inr (IdObj None ((ID_KEY, IdStr (id_or id' idPrefix))
                                    # map (\<lambda>(name, field). (name, child name)) ps)))) \<and>
         (getSchemaType E scenario1 = JStr ''object'' \<longrightarrow>
          toIdSchema E (Suc (Suc n)) scenario1 None rootSchema formData (Some ''root'') (Some ''_'')
          = Some (Inr scenario1Tree))"
proof (intro conjI impI allI)
  have "propertyBody E n idPrefix idSeparator rootSchema formData recurseList
        = (\<lambda>name field idSchema.
                case fieldId idSchema idSeparator name of
                  Inl e \<Rightarrow> Some (Inl e)
                | Inr fid \<Rightarrow>
                    (case toIdSchemaInternal E n field idPrefix idSeparator (Some fid)
                            rootSchema (getData E formData name) recurseList of
                       None \<Rightarrow> None
                     | Some (Inl e) \<Rightarrow> Some (Inl e)
                     | Some (Inr child) \<Rightarrow> Some (Inr (assign name child idSchema))))"
    by (intro ext) (simp add: propertyBody_def)
  with assms show
    "toIdSchemaInternal E (Suc n) schema idPrefix idSeparator id' rootSchema formData recurseList
         = forIn
             (\<lambda>name field idSchema.
                case fieldId idSchema idSeparator name of
                  Inl e \<Rightarrow> Some (Inl e)
                | Inr fid \<Rightarrow>
                    (case toIdSchemaInternal E n field idPrefix idSeparator (Some fid)
                            rootSchema (getData E formData name) recurseList of
                       None \<Rightarrow> None
                     | Some (Inl e) \<Rightarrow> Some (Inl e)
                     | Some (Inr child) \<Rightarrow> Some (Inr (assign name child idSchema))))
             ps (IdObj None [(ID_KEY, IdStr (id_or id' idPrefix))])"
    by (simp add: toIdSchemaInternal_objectCase newIdSchema_def)
next
  fix kvs
  assume "get schema PROPERTIES_KEY = JObj kvs"
  with assms(2) show
    "ps = sort_key (\<lambda>kv. indexVal (fst kv)) (filter (\<lambda>kv. isIndex (fst kv)) kvs)
          @ filter (\<lambda>kv. \<not> isIndex (fst kv)) kvs"
    by (simp add: forInOrder_def)
next
  fix kvs
  assume "get schema PROPERTIES_KEY = JObj kvs" and "\<forall>kv \<in> set kvs. \<not> isIndex (fst kv)"
  with assms(2) show "ps = kvs" by (simp add: forInOrder_declared)
next
  assume h: "distinct (map fst ps) \<and> ID_KEY \<notin> fst ` set ps \<and> ''__proto__'' \<notin> fst ` set ps \<and>
          (\<forall>(name, field) \<in> set ps.
             toIdSchemaInternal E n field idPrefix idSeparator
               (Some (id_or id' idPrefix @ idSeparator @ name))
               rootSchema (getData E formData name) recurseList = Some (Inr (child name)))"
  have "forIn (propertyBody E n idPrefix idSeparator rootSchema formData recurseList) ps
          (IdObj None [(ID_KEY, IdStr (id_or id' idPrefix))])
        = Some (Inr (IdObj None ([(ID_KEY, IdStr (id_or id' idPrefix))]
                                   @ map (\<lambda>(name, field). (name, child name)) ps)))"
  proof (rule forIn_children)
    show "fst ` set ps \<inter> fst ` set [(ID_KEY, IdStr (id_or id' idPrefix))] = {}"
      using h by simp
    show "map_of [(ID_KEY, IdStr (id_or id' idPrefix))] ID_KEY = Some (IdStr (id_or id' idPrefix))"
      by simp
  qed (use h in simp_all)
  then show "toIdSchemaInternal E (Suc n) schema idPrefix idSeparator id' rootSchema formData
               recurseList
             = Some (Inr (IdObj None ((ID_KEY, IdStr (id_or id' idPrefix))
                                       # map (\<lambda>(name, field). (name, child name)) ps)))"
    using assms(1,2) by (simp add: toIdSchemaInternal_objectCase newIdSchema_def)
next
  assume c: "getSchemaType E scenario1 = JStr ''object''"
  then have "objectCase E scenario1 rootSchema formData []"
    by (simp add: objectCase_def retrieveStep_def) (simp add: scenario1_def)
  then show "toIdSchema E (Suc (Suc n)) scenario1 None rootSchema formData (Some ''root'')
               (Some ''_'') = Some (Inr scenario1Tree)"
    by (simp add: toIdSchema_def toIdSchemaInternal_objectCase)
       (simp add: scenario1_def scenario1Tree_def propertyBody_def fieldId_def string_schema_leaf
          newIdSchema_def forInOrder_def isIndex_def)
qed

theorem object_properties_witness:
  "objectCase derefEnv scenario1 JUndefined JUndefined [] \<and>
   get scenario1 PROPERTIES_KEY
   = JObj [(''a'', JObj [(''type'', JStr ''string'')]), (''b'', JObj [(''type'', JStr ''number'')])] \<and>
   \<not> isIndex ''a'' \<and> \<not> isIndex ''b'' \<and>
   forInProps (get scenario1 PROPERTIES_KEY)
   = [(''a'', JObj [(''type'', JStr ''string'')]), (''b'', JObj [(''type'', JStr ''number'')])] \<and>
   distinct (map fst (forInProps (get scenario1 PROPERTIES_KEY))) \<and>
   ID_KEY \<notin> fst ` set (forInProps (get scenario1 PROPERTIES_KEY)) \<and>
   ''__proto__'' \<notin> fst ` set (forInProps (get scenario1 PROPERTIES_KEY)) \<and>
   toIdSchemaInternal derefEnv (Suc 0) (JObj [(''type'', JStr ''string'')]) ''root'' ''_''
     (Some (id_or None ''root'' @ ''_'' @ ''a'')) JUndefined (getData derefEnv JUndefined ''a'') []
   = Some (Inr (IdObj None [(ID_KEY, IdStr ''root_a'')])) \<and>
   toIdSchemaInternal derefEnv (Suc 0) (JObj [(''type'', JStr ''number'')]) ''root'' ''_''
     (Some (id_or None ''root'' @ ''_'' @ ''b'')) JUndefined (getData derefEnv JUndefined ''b'') []
   = Some (Inr (IdObj None [(ID_KEY, IdStr ''root_b'')])) \<and>
   getSchemaType derefEnv scenario1 = JStr ''object'' \<and>
   toIdSchemaInternal derefEnv (Suc (Suc 0)) scenario1 ''root'' ''_'' None JUndefined JUndefined []
   = Some (Inr scenario1Tree) \<and>
   toIdSchema derefEnv (Suc (Suc (Suc 0))) scenario1 None JUndefined JUndefined (Some ''root'')
     (Some ''_'')
   = Some (Inr scenario1Tree)"
proof -
  let ?kvs = "[(''a'', JObj [(''type'', JStr ''string'')]), (''b'', JObj [(''type'', JStr ''number'')])]"
  have c: "getSchemaType derefEnv scenario1 = JStr ''object''"
    by (simp add: derefEnv_def classify_def scenario1_def)
  have a: "objectCase derefEnv scenario1 JUndefined JUndefined []"
    using c by (simp add: objectCase_def retrieveStep_def) (simp add: scenario1_def)
  have g: "get scenario1 PROPERTIES_KEY = JObj ?kvs" by (simp add: scenario1_def)
  have i: "\<not> isIndex ''a''" "\<not> isIndex ''b''" by (simp_all add: isIndex_def)
  then have ni: "\<forall>kv \<in> set ?kvs. \<not> isIndex (fst kv)" by simp
  note inst = object_properties [OF a refl, where n = "Suc 0" and idPrefix = "''root''"
      and idSeparator = "''_''" and id' = None
      and child = "\<lambda>name. IdObj None [(ID_KEY, IdStr (''root_'' @ name))]"]
  from inst [THEN conjunct2, THEN conjunct1] g ni
  have p: "forInProps (get scenario1 PROPERTIES_KEY) = ?kvs" by blast
  have d: "distinct (map fst (forInProps (get scenario1 PROPERTIES_KEY)))" by (simp add: p)
  have k: "ID_KEY \<notin> fst ` set (forInProps (get scenario1 PROPERTIES_KEY))" by (simp add: p)
  have pr: "''__proto__'' \<notin> fst ` set (forInProps (get scenario1 PROPERTIES_KEY))"
    by (simp add: p)
  have ch: "\<forall>(name, field) \<in> set (forInProps (get scenario1 PROPERTIES_KEY)).
      toIdSchemaInternal derefEnv (Suc 0) field ''root'' ''_''
        (Some (id_or None ''root'' @ ''_'' @ name)) JUndefined (getData derefEnv JUndefined name) []
      = Some (Inr (IdObj None [(ID_KEY, IdStr (''root_'' @ name))]))"
    by (simp add: p string_schema_leaf)
  from inst [THEN conjunct2, THEN conjunct2, THEN conjunct1] d k pr ch
  have "toIdSchemaInternal derefEnv (Suc (Suc 0)) scenario1 ''root'' ''_'' None JUndefined
          JUndefined []
        = Some (Inr (IdObj None ((ID_KEY, IdStr (id_or None ''root''))
              # map (\<lambda>(name, field). (name, IdObj None [(ID_KEY, IdStr (''root_'' @ name))]))
                  (forInProps (get scenario1 PROPERTIES_KEY)))))"
    by blast
  then have r1: "toIdSchemaInternal derefEnv (Suc (Suc 0)) scenario1 ''root'' ''_'' None JUndefined
          JUndefined [] = Some (Inr scenario1Tree)"
    by (simp add: p scenario1Tree_def)
  from inst [THEN conjunct2, THEN conjunct2, THEN conjunct2] c
  have r2: "toIdSchema derefEnv (Suc (Suc (Suc 0))) scenario1 None JUndefined JUndefined
              (Some ''root'') (Some ''_'') = Some (Inr scenario1Tree)"
    by blast
  have l: "toIdSchemaInternal derefEnv (Suc 0) (JObj [(''type'', JStr ''string'')]) ''root'' ''_''
             (Some (id_or None ''root'' @ ''_'' @ ''a'')) JUndefined
             (getData derefEnv JUndefined ''a'') []
           = Some (Inr (IdObj None [(ID_KEY, IdStr ''root_a'')]))"
      "toIdSchemaInternal derefEnv (Suc 0) (JObj [(''type'', JStr ''number'')]) ''root'' ''_''
             (Some (id_or None ''root'' @ ''_'' @ ''b'')) JUndefined
             (getData derefEnv JUndefined ''b'') []
           = Some (Inr (IdObj None [(ID_KEY, IdStr ''root_b'')]))"
    by (simp_all add: string_schema_leaf)
  from a g i p d k pr l c r1 r2 show ?thesis by blast
qed

subsection \<open>Claim C3\<close>




subsection \<open>Claim C4\<close>

text \<open>
  Claim C4, as stated, fails on example scenario 4: the array-delegation case does not
  apply, but the builder neither resolves the reference of the item nor recurses; the
  property is the single node \<^verbatim>\<open>{$id: "root_items"}\<close>, while a build that resolves the
  reference and recurses into what it finds has the child \<^verbatim>\<open>x\<close> of the item schema.
\<close>

theorem ref_items_counterexample:
  "toIdSchema derefEnv (Suc (Suc (Suc (Suc 0)))) scenario4 None scenario4Root JUndefined None None
   = Some (Inr (IdObj None [(ID_KEY, IdStr ''root''),
                            (''items'', IdObj None [(ID_KEY, IdStr ''root_items'')])])) \<and>
   toIdSchema derefEnv (Suc (Suc (Suc (Suc 0)))) (get refItemsArray ITEMS_KEY) (Some ''root_items'')
     scenario4Root JUndefined None None
   = Some (Inr (IdObj None [(ID_KEY, IdStr ''root_items''),
                            (''x'', IdObj None [(ID_KEY, IdStr ''root_items_x'')])]))"
proof -
  have o: "objectCase derefEnv scenario4 scenario4Root JUndefined []"
    by (simp add: objectCase_def retrieveStep_def derefEnv_def classify_def scenario4_def)
  have l: "isLeaf derefEnv refItemsArray scenario4Root JUndefined []"
    by (simp add: isLeaf_def retrieveStep_def derefEnv_def classify_def refItemsArray_def)
  have a: "toIdSchemaInternal derefEnv (Suc (Suc (Suc 0))) refItemsArray ''root'' ''_''
             (Some ''root_items'') scenario4Root JUndefined []
           = Some (Inr (IdObj None [(ID_KEY, IdStr ''root_items'')]))"
    by (simp add: toIdSchemaInternal_leaf [OF l] newIdSchema_def)
  have 1: "toIdSchema derefEnv (Suc (Suc (Suc (Suc 0)))) scenario4 None scenario4Root JUndefined
             None None
           = Some (Inr (IdObj None [(ID_KEY, IdStr ''root''),
                            (''items'', IdObj None [(ID_KEY, IdStr ''root_items'')])]))"
    using a
    by (simp add: toIdSchema_def toIdSchemaInternal_objectCase [OF o])
       (simp add: scenario4_def propertyBody_def fieldId_def forInOrder_def isIndex_def newIdSchema_def)
  let ?item = "JObj [(''type'', JStr ''object''),
              (PROPERTIES_KEY, JObj [(''x'', JObj [(''type'', JStr ''string'')])])]"
  have d: "delegate derefEnv (JObj [(REF_KEY, JStr ''#/defs/item'')]) scenario4Root JUndefined []
           = Some (?item, [?item])"
    by (simp add: delegate_def retrieveStep_def derefEnv_def scenario4Root_def)
  have o2: "objectCase derefEnv ?item scenario4Root JUndefined [?item]"
    by (simp add: objectCase_def retrieveStep_def derefEnv_def classify_def)
  have 2: "toIdSchema derefEnv (Suc (Suc (Suc (Suc 0)))) (get refItemsArray ITEMS_KEY)
             (Some ''root_items'') scenario4Root JUndefined None None
           = Some (Inr (IdObj None [(ID_KEY, IdStr ''root_items''),
                            (''x'', IdObj None [(ID_KEY, IdStr ''root_items_x'')])]))"
    by (simp add: toIdSchema_def refItemsArray_def toIdSchemaInternal_delegate [OF d]
          toIdSchemaInternal_objectCase [OF o2])
       (simp add: propertyBody_def fieldId_def forInOrder_def isIndex_def string_schema_leaf newIdSchema_def)
  from 1 2 show ?thesis by simp
qed

text \<open>
  Claim C4, amended. For an object schema without reference, dependency or allOf keyword
  of its own whose \<^verbatim>\<open>items\<close> child carries a truthy \<^verbatim>\<open>$ref\<close>, the array-delegation
  case does not apply and the reference of the item is not resolved: whatever retrieval
  function the environment has, the build makes no call on the item and is the loop over
  the properties of the schema when the schema is classified as object and has
  properties, and the single node \<^verbatim>\<open>{$id}\<close> otherwise.
\<close>

theorem ref_items_not_resolved:
  assumes "typeof_object schema"
    and "\<not> hasKey REF_KEY schema" and "\<not> hasKey DEPENDENCIES_KEY schema"
    and "\<not> hasKey ALL_OF_KEY schema"
    and "hasKey ITEMS_KEY schema" and "truthy (get (get schema ITEMS_KEY) REF_KEY)"
  shows "toIdSchemaInternal (E\<lparr>retrieveSchema := r\<rparr>) (Suc n) schema idPrefix idSeparator id'
           rootSchema formData recurseList
         = (if getSchemaType E schema = JStr ''object'' \<and> hasKey PROPERTIES_KEY schema
            then forIn (propertyBody (E\<lparr>retrieveSchema := r\<rparr>) n idPrefix idSeparator rootSchema
                          formData recurseList)
                   (forInProps (get schema PROPERTIES_KEY))
                   (IdObj None [(ID_KEY, IdStr (id_or id' idPrefix))])
            else Some (Inr (IdObj None [(ID_KEY, IdStr (id_or id' idPrefix))])))"
proof -
  from assms(5) have nn: "schema \<noteq> JNull" by auto
  from assms(2-4) have
    rs: "retrieveStep (E\<lparr>retrieveSchema := r\<rparr>) schema rootSchema formData recurseList = Inr None"
    by (simp add: retrieveStep_def)
  show ?thesis
    using assms(5,6)
    by (simp add: toIdSchemaInternal_afterRetrieve [OF assms(1) nn rs] afterRetrieve_def
        newIdSchema_def)
qed

theorem ref_items_not_resolved_witness:
  "typeof_object refItemsArray \<and> \<not> hasKey REF_KEY refItemsArray \<and>
   \<not> hasKey DEPENDENCIES_KEY refItemsArray \<and> \<not> hasKey ALL_OF_KEY refItemsArray \<and>
   hasKey ITEMS_KEY refItemsArray \<and> truthy (get (get refItemsArray ITEMS_KEY) REF_KEY) \<and>
   toIdSchemaInternal (derefEnv\<lparr>retrieveSchema := (\<lambda>s r f. Inl ReferenceError)\<rparr>) (Suc 0)
     refItemsArray ''root'' ''_'' (Some ''root_items'') scenario4Root JUndefined []
   = Some (Inr (IdObj None [(ID_KEY, IdStr ''root_items'')]))"
proof -
  have a: "typeof_object refItemsArray" by (simp add: refItemsArray_def)
  have b: "\<not> hasKey REF_KEY refItemsArray" by (simp add: refItemsArray_def)
  have c: "\<not> hasKey DEPENDENCIES_KEY refItemsArray" by (simp add: refItemsArray_def)
  have d: "\<not> hasKey ALL_OF_KEY refItemsArray" by (simp add: refItemsArray_def)
  have e: "hasKey ITEMS_KEY refItemsArray" by (simp add: refItemsArray_def)
  have f: "truthy (get (get refItemsArray ITEMS_KEY) REF_KEY)" by (simp add: refItemsArray_def)
  have g: "getSchemaType derefEnv refItemsArray = JStr ''array''"
    by (simp add: derefEnv_def classify_def refItemsArray_def)
  from ref_items_not_resolved [OF a b c d e f, where E = derefEnv
      and r = "\<lambda>s r f. Inl ReferenceError" and n = 0 and idPrefix = "''root''"
      and idSeparator = "''_''" and id' = "Some ''root_items''" and rootSchema = scenario4Root
      and formData = JUndefined and recurseList = "[]"] a b c d e f g
  show ?thesis by simp
qed

subsection \<open>Claim C5\<close>

text \<open>
  Claim C5, as stated, fails: the property names of the schema below are distinct at
  each level, and the property \<^verbatim>\<open>a_b\<close> of the root and the property \<^verbatim>\<open>b\<close> of its
  property \<^verbatim>\<open>a\<close> both get the identifier \<^verbatim>\<open>root_a_b\<close>.
\<close>

theorem ids_distinct_counterexample:
  "distinct (map fst (ownProps (get clashSchema PROPERTIES_KEY))) \<and>
   distinct (map fst (ownProps (get (get (get clashSchema PROPERTIES_KEY) ''a'') PROPERTIES_KEY))) \<and>
   toIdSchema derefEnv (Suc (Suc (Suc 0))) clashSchema None JUndefined JUndefined None None
   = Some (Inr (IdObj None
        [(ID_KEY, IdStr ''root''),
         (''a'', IdObj None [(ID_KEY, IdStr ''root_a''),
                             (''b'', IdObj None [(ID_KEY, IdStr ''root_a_b'')])]),
         (''a_b'', IdObj None [(ID_KEY, IdStr ''root_a_b'')])])) \<and>
   \<not> distinct (ids (IdObj None
        [(ID_KEY, IdStr ''root''),
         (''a'', IdObj None [(ID_KEY, IdStr ''root_a''),
                             (''b'', IdObj None [(ID_KEY, IdStr ''root_a_b'')])]),
         (''a_b'', IdObj None [(ID_KEY, IdStr ''root_a_b'')])]))"
proof -
  let ?a = "JObj [(''type'', JStr ''object''),
                  (PROPERTIES_KEY, JObj [(''b'', JObj [(''type'', JStr ''string'')])])]"
  have o: "objectCase derefEnv clashSchema JUndefined JUndefined []"
    by (simp add: objectCase_def retrieveStep_def derefEnv_def classify_def clashSchema_def)
  have oa: "objectCase derefEnv ?a JUndefined JUndefined []"
    by (simp add: objectCase_def retrieveStep_def derefEnv_def classify_def)
  have a: "toIdSchemaInternal derefEnv (Suc (Suc 0)) ?a ''root'' ''_'' (Some ''root_a'') JUndefined
             JUndefined []
           = Some (Inr (IdObj None [(ID_KEY, IdStr ''root_a''),
                             (''b'', IdObj None [(ID_KEY, IdStr ''root_a_b'')])]))"
    by (simp add: toIdSchemaInternal_objectCase [OF oa])
       (simp add: propertyBody_def fieldId_def forInOrder_def isIndex_def string_schema_leaf newIdSchema_def)
  have "toIdSchema derefEnv (Suc (Suc (Suc 0))) clashSchema None JUndefined JUndefined None None
   = Some (Inr (IdObj None
        [(ID_KEY, IdStr ''root''),
         (''a'', IdObj None [(ID_KEY, IdStr ''root_a''),
                             (''b'', IdObj None [(ID_KEY, IdStr ''root_a_b'')])]),
         (''a_b'', IdObj None [(ID_KEY, IdStr ''root_a_b'')])]))"
    using a
    by (simp add: toIdSchema_def toIdSchemaInternal_objectCase [OF o])
       (simp add: clashSchema_def propertyBody_def fieldId_def forInOrder_def isIndex_def string_schema_leaf newIdSchema_def)
  then show ?thesis by (simp add: clashSchema_def)
qed

text \<open>
  Claim C5, amended. Let the separator be a single character, and let the property names
  at every nesting level of the schema be distinct, free of that character and different
  from \<^verbatim>\<open>$id\<close>, and let retrieval under this root schema return only schemas with
  such names when it is given one. Then the identifiers of every tree the build returns
  are pairwise distinct, for every prefix, base identifier, form data and recursion
  list.
\<close>

theorem ids_distinct:
  assumes "toIdSchemaInternal E n schema idPrefix [c] id' rootSchema formData recurseList
           = Some (Inr t)"
    and "goodNames c schema"
    and "\<forall>s f s'. goodNames c s \<and> retrieveSchema E s rootSchema f = Inr s' \<longrightarrow> goodNames c s'"
  shows "distinct (ids t)"
proof -
  have "distinct (ids t) \<and>
        (\<forall>i \<in> set (ids t). i = id_or id' idPrefix \<or> (\<exists>r. i = id_or id' idPrefix @ c # r))"
  proof (rule ids_distinct_aux [OF _ assms(1,2)])
    fix s f s'
    assume "goodNames c s" and "retrieveSchema E s rootSchema f = Inr s'"
    with assms(3) show "goodNames c s'" by blast
  qed
  then show ?thesis by simp
qed

theorem ids_distinct_witness:
  "toIdSchemaInternal derefEnv (Suc (Suc (Suc 0))) (JObj [(REF_KEY, JStr ''#/defs/item'')])
     ''root'' [CHR ''_''] None scenario4Root JUndefined []
   = Some (Inr (IdObj None [(ID_KEY, IdStr ''root''),
                            (''x'', IdObj None [(ID_KEY, IdStr ''root_x'')])])) \<and>
   goodNames (CHR ''_'') (JObj [(REF_KEY, JStr ''#/defs/item'')]) \<and>
   \<not> (\<exists>s f s'. goodNames (CHR ''_'') s \<and> retrieveSchema derefEnv s scenario4Root f = Inr s' \<and>
         \<not> goodNames (CHR ''_'') s') \<and>
   distinct (ids (IdObj None [(ID_KEY, IdStr ''root''),
                              (''x'', IdObj None [(ID_KEY, IdStr ''root_x'')])]))"
proof -
  let ?item = "JObj [(''type'', JStr ''object''),
              (PROPERTIES_KEY, JObj [(''x'', JObj [(''type'', JStr ''string'')])])]"
  have d: "delegate derefEnv (JObj [(REF_KEY, JStr ''#/defs/item'')]) scenario4Root JUndefined []
           = Some (?item, [?item])"
    by (simp add: delegate_def retrieveStep_def derefEnv_def scenario4Root_def)
  have o2: "objectCase derefEnv ?item scenario4Root JUndefined [?item]"
    by (simp add: objectCase_def retrieveStep_def derefEnv_def classify_def)
  have a: "toIdSchemaInternal derefEnv (Suc (Suc (Suc 0))) (JObj [(REF_KEY, JStr ''#/defs/item'')])
             ''root'' [CHR ''_''] None scenario4Root JUndefined []
           = Some (Inr (IdObj None [(ID_KEY, IdStr ''root''),
                            (''x'', IdObj None [(ID_KEY, IdStr ''root_x'')])]))"
    by (simp add: toIdSchemaInternal_delegate [OF d] toIdSchemaInternal_objectCase [OF o2])
       (simp add: propertyBody_def fieldId_def forInOrder_def isIndex_def string_schema_leaf newIdSchema_def)
  have b: "goodNames (CHR ''_'') (JObj [(REF_KEY, JStr ''#/defs/item'')])"
    by (simp add: namesOk_def)
  have r: "goodNames (CHR ''_'') scenario4Root"
    by (simp add: scenario4Root_def namesOk_def)
  have c: "\<forall>s f s'. goodNames (CHR ''_'') s \<and> retrieveSchema derefEnv s scenario4Root f = Inr s'
             \<longrightarrow> goodNames (CHR ''_'') s'"
  proof (intro allI impI)
    fix s f s'
    assume h: "goodNames (CHR ''_'') s \<and> retrieveSchema derefEnv s scenario4Root f = Inr s'"
    then have "s' = s \<or> (\<exists>k. s' = get (get scenario4Root ''defs'') k)"
      by (auto simp: derefEnv_def split: jsval.splits if_splits)
    then show "goodNames (CHR ''_'') s'"
      using h r goodNames_get by blast
  qed
  then have c': "\<not> (\<exists>s f s'. goodNames (CHR ''_'') s \<and>
                     retrieveSchema derefEnv s scenario4Root f = Inr s' \<and>
                     \<not> goodNames (CHR ''_'') s')"
    by blast
  from ids_distinct [OF a b c] a b c' show ?thesis by simp
qed

subsection \<open>Claim C6\<close>

text \<open>
  Claim C6, as stated, fails twice. A base identifier that is supplied but empty is
  replaced by the prefix, and a property named \<^verbatim>\<open>$id\<close> overwrites the identifier of
  its parent with the tree of the property.
\<close>

theorem root_id_counterexample:
  "toIdSchema derefEnv (Suc 0) (JBool True) (Some []) JUndefined JUndefined (Some ''form'') None
   = Some (Inr (IdObj None [(ID_KEY, IdStr ''form'')])) \<and>
   ''form'' \<noteq> [] \<and>
   toIdSchema derefEnv (Suc (Suc 0)) idPropSchema (Some ''base'') JUndefined JUndefined None None
   = Some (Inr (IdObj None [(ID_KEY, IdObj None [(ID_KEY, IdStr ''base_$id'')])])) \<and>
   currentId (IdObj None [(ID_KEY, IdObj None [(ID_KEY, IdStr ''base_$id'')])]) \<noteq> IdStr ''base''"
proof -
  have "objectCase derefEnv idPropSchema JUndefined JUndefined []"
    by (simp add: objectCase_def retrieveStep_def derefEnv_def classify_def idPropSchema_def)
  then have "toIdSchema derefEnv (Suc (Suc 0)) idPropSchema (Some ''base'') JUndefined JUndefined
               None None
             = Some (Inr (IdObj None [(ID_KEY, IdObj None [(ID_KEY, IdStr ''base_$id'')])]))"
    by (simp add: toIdSchema_def toIdSchemaInternal_objectCase)
       (simp add: idPropSchema_def propertyBody_def fieldId_def forInOrder_def isIndex_def string_schema_leaf newIdSchema_def)
  moreover
  have "toIdSchema derefEnv (Suc 0) (JBool True) (Some []) JUndefined JUndefined (Some ''form'') None
        = Some (Inr (IdObj None [(ID_KEY, IdStr ''form'')]))"
    by (simp add: toIdSchema_def toIdSchemaInternal.simps(2) newIdSchema_def)
  ultimately show ?thesis by simp
qed

text \<open>
  Claim C6, amended. Whenever the build returns a tree, and the object node that the
  reference and items handling lead the schema to declares no property named \<^verbatim>\<open>$id\<close>,
  the root of the tree carries under \<^verbatim>\<open>$id\<close> the base identifier when that is a
  non-empty string, and the prefix when the base identifier is absent or empty.
\<close>

theorem root_id:
  assumes "toIdSchemaInternal E n schema idPrefix idSeparator id' rootSchema formData recurseList
           = Some (Inr t)"
    and "\<forall>k s r. delegates E k schema rootSchema formData recurseList = Some (s, r) \<and>
           objectCase E s rootSchema formData r \<longrightarrow>
           ID_KEY \<notin> fst ` set (ownProps (get s PROPERTIES_KEY))"
  shows "currentId t = IdStr (if id' = None \<or> id' = Some [] then idPrefix else the id')"
proof -
  have "currentId t = IdStr (id_or id' idPrefix)"
    using assms(1)
  proof (rule root_id_aux)
    fix k s r
    assume "delegates E k schema rootSchema formData recurseList = Some (s, r)"
      and "objectCase E s rootSchema formData r"
    with assms(2) show "ID_KEY \<notin> fst ` set (ownProps (get s PROPERTIES_KEY))" by blast
  qed
  then show ?thesis by (cases id') auto
qed

theorem root_id_witness:
  "toIdSchemaInternal derefEnv (Suc (Suc 0)) scenario1 ''root'' ''_'' (Some ''form'') JUndefined
     JUndefined [] =
   Some (Inr (IdObj None [(ID_KEY, IdStr ''form''),
                          (''a'', IdObj None [(ID_KEY, IdStr ''form_a'')]),
                          (''b'', IdObj None [(ID_KEY, IdStr ''form_b'')])])) \<and>
   \<not> (\<exists>k s r. delegates derefEnv k scenario1 JUndefined JUndefined [] = Some (s, r) \<and>
        objectCase derefEnv s JUndefined JUndefined r \<and>
        ID_KEY \<in> fst ` set (ownProps (get s PROPERTIES_KEY))) \<and>
   currentId (IdObj None [(ID_KEY, IdStr ''form''),
                          (''a'', IdObj None [(ID_KEY, IdStr ''form_a'')]),
                          (''b'', IdObj None [(ID_KEY, IdStr ''form_b'')])]) = IdStr ''form''"
proof -
  have o: "objectCase derefEnv scenario1 JUndefined JUndefined []"
    by (simp add: objectCase_def retrieveStep_def derefEnv_def classify_def scenario1_def)
  have a: "toIdSchemaInternal derefEnv (Suc (Suc 0)) scenario1 ''root'' ''_'' (Some ''form'')
             JUndefined JUndefined [] =
           Some (Inr (IdObj None [(ID_KEY, IdStr ''form''),
                          (''a'', IdObj None [(ID_KEY, IdStr ''form_a'')]),
                          (''b'', IdObj None [(ID_KEY, IdStr ''form_b'')])]))"
    by (simp add: toIdSchemaInternal_objectCase [OF o])
       (simp add: scenario1_def propertyBody_def fieldId_def forInOrder_def isIndex_def string_schema_leaf newIdSchema_def)
  have d: "delegate derefEnv scenario1 JUndefined JUndefined [] = None"
    by (simp add: delegate_def retrieveStep_def scenario1_def)
  have b: "\<forall>k s r. delegates derefEnv k scenario1 JUndefined JUndefined [] = Some (s, r) \<and>
        objectCase derefEnv s JUndefined JUndefined r \<longrightarrow>
        ID_KEY \<notin> fst ` set (ownProps (get s PROPERTIES_KEY))"
  proof (intro allI impI)
    fix k s r
    assume h: "delegates derefEnv k scenario1 JUndefined JUndefined [] = Some (s, r) \<and>
        objectCase derefEnv s JUndefined JUndefined r"
    with d have "s = scenario1" by (cases k) auto
    then show "ID_KEY \<notin> fst ` set (ownProps (get s PROPERTIES_KEY))"
      by (simp add: scenario1_def)
  qed
  have b': "\<not> (\<exists>k s r. delegates derefEnv k scenario1 JUndefined JUndefined [] = Some (s, r) \<and>
        objectCase derefEnv s JUndefined JUndefined r \<and>
        ID_KEY \<in> fst ` set (ownProps (get s PROPERTIES_KEY)))"
    using b by blast
  from root_id [OF a b] a b' show ?thesis by simp
qed

subsection \<open>Claim C7\<close>




subsection \<open>Claim C8\<close>

text \<open>
  Claim C8, as stated, fails for form data that is a string: the member of the string
  \<^verbatim>\<open>"abc"\<close> at the property name \<^verbatim>\<open>length\<close> is the number 3, the child call
  receives it, and the retrieval of the child sees form data where the build with absent
  form data sees none.
\<close>

theorem formData_slice_counterexample:
  "getData probeEnv (JStr ''abc'') ''length'' = JNum 3 \<and>
   toIdSchemaInternal probeEnv (Suc (Suc (Suc (Suc 0)))) lengthSchema ''root'' ''_'' None JUndefined
     (JStr ''abc'') []
   = Some (Inr (IdObj None
        [(ID_KEY, IdStr ''root''),
         (''length'', IdObj None [(ID_KEY, IdStr ''root_length''),
                                  (''present'', IdObj None [(ID_KEY, IdStr ''root_length_present'')])])])) \<and>
   toIdSchemaInternal probeEnv (Suc (Suc (Suc (Suc 0)))) lengthSchema ''root'' ''_'' None JUndefined
     JUndefined []
   = Some (Inr (IdObj None
        [(ID_KEY, IdStr ''root''), (''length'', IdObj None [(ID_KEY, IdStr ''root_length'')])]))"
proof -
  have o: "objectCase probeEnv lengthSchema JUndefined formData []" for formData
    by (simp add: objectCase_def retrieveStep_def probeEnv_def classify_def lengthSchema_def)
  have d1: "delegate probeEnv (JObj [(DEPENDENCIES_KEY, JObj [])]) JUndefined (JNum 3) []
            = Some (JObj [(''type'', JStr ''object''),
                          (PROPERTIES_KEY, JObj [(''present'', JObj [])])],
                    [JObj [(''type'', JStr ''object''),
                          (PROPERTIES_KEY, JObj [(''present'', JObj [])])]])"
    by (simp add: delegate_def retrieveStep_def probeEnv_def)
  have d2: "delegate probeEnv (JObj [(DEPENDENCIES_KEY, JObj [])]) JUndefined JUndefined []
            = Some (JObj [], [JObj []])"
    by (simp add: delegate_def retrieveStep_def probeEnv_def)
  have o2: "objectCase probeEnv (JObj [(''type'', JStr ''object''),
                          (PROPERTIES_KEY, JObj [(''present'', JObj [])])]) JUndefined (JNum 3) r"
    for r
    by (simp add: objectCase_def retrieveStep_def probeEnv_def classify_def)
  have c1: "toIdSchemaInternal probeEnv (Suc (Suc (Suc 0))) (JObj [(DEPENDENCIES_KEY, JObj [])])
              ''root'' ''_'' (Some ''root_length'') JUndefined (JNum 3) []
            = Some (Inr (IdObj None [(ID_KEY, IdStr ''root_length''),
                  (''present'', IdObj None [(ID_KEY, IdStr ''root_length_present'')])]))"
    by (simp add: toIdSchemaInternal_delegate [OF d1] toIdSchemaInternal_objectCase [OF o2])
       (simp add: propertyBody_def fieldId_def forInOrder_def isIndex_def empty_schema_leaf newIdSchema_def)
  have c2: "toIdSchemaInternal probeEnv (Suc (Suc (Suc 0))) (JObj [(DEPENDENCIES_KEY, JObj [])])
              ''root'' ''_'' (Some ''root_length'') JUndefined JUndefined []
            = Some (Inr (IdObj None [(ID_KEY, IdStr ''root_length'')]))"
    by (simp add: toIdSchemaInternal_delegate [OF d2] empty_schema_leaf)
  have g: "getData probeEnv (JStr ''abc'') ''length'' = JNum 3"
    by (simp add: getData_def hasOwn_def)
  show ?thesis
    using c1 c2 g
    by (simp add: toIdSchemaInternal_objectCase [OF o])
       (simp add: lengthSchema_def propertyBody_def fieldId_def forInOrder_def isIndex_def newIdSchema_def)
qed

text \<open>
  Claim C8, amended. In the object case with form data that is \<^verbatim>\<open>undefined\<close> or
  \<^verbatim>\<open>null\<close>, every property is built with the form data \<^verbatim>\<open>undefined\<close>: the build is
  the loop over the properties in which each child call receives \<^verbatim>\<open>undefined\<close>, and
  the slicing itself throws nothing.
\<close>

theorem absent_formData:
  assumes "objectCase E schema rootSchema formData recurseList"
    and "formData = JUndefined \<or> formData = JNull"
  shows "toIdSchemaInternal E (Suc n) schema idPrefix idSeparator id' rootSchema formData recurseList
         = forIn
             (\<lambda>name field idSchema.
                case fieldId idSchema idSeparator name of
                  Inl e \<Rightarrow> Some (Inl e)
                | Inr fid \<Rightarrow>
                    (case toIdSchemaInternal E n field idPrefix idSeparator (Some fid)
                            rootSchema JUndefined recurseList of
                       None \<Rightarrow> None
                     | Some (Inl e) \<Rightarrow> Some (Inl e)
                     | Some (Inr child) \<Rightarrow> Some (Inr (assign name child idSchema))))
             (forInProps (get schema PROPERTIES_KEY))
             (IdObj None [(ID_KEY, IdStr (id_or id' idPrefix))])"
proof -
  from assms(2) have gd: "getData E formData name = JUndefined" for name by auto
  have "propertyBody E n idPrefix idSeparator rootSchema formData recurseList
             = (\<lambda>name field idSchema.
                case fieldId idSchema idSeparator name of
                  Inl e \<Rightarrow> Some (Inl e)
                | Inr fid \<Rightarrow>
                    (case toIdSchemaInternal E n field idPrefix idSeparator (Some fid)
                            rootSchema JUndefined recurseList of
                       None \<Rightarrow> None
                     | Some (Inl e) \<Rightarrow> Some (Inl e)
                     | Some (Inr child) \<Rightarrow> Some (Inr (assign name child idSchema))))"
    by (intro ext) (simp add: propertyBody_def gd split: sum.splits)
  with assms(1) show ?thesis
    by (simp add: toIdSchemaInternal_objectCase newIdSchema_def)
qed

theorem absent_formData_witness:
  "objectCase probeEnv lengthSchema JUndefined JNull [] \<and>
   (JNull = JUndefined \<or> JNull = JNull) \<and>
   toIdSchemaInternal probeEnv (Suc (Suc (Suc (Suc 0)))) lengthSchema ''root'' ''_'' None JUndefined
     JNull []
   = Some (Inr (IdObj None
        [(ID_KEY, IdStr ''root''), (''length'', IdObj None [(ID_KEY, IdStr ''root_length'')])]))"
proof -
  have o: "objectCase probeEnv lengthSchema JUndefined JNull []"
    by (simp add: objectCase_def retrieveStep_def probeEnv_def classify_def lengthSchema_def)
  have f: "JNull = JUndefined \<or> JNull = JNull" by simp
  have d2: "delegate probeEnv (JObj [(DEPENDENCIES_KEY, JObj [])]) JUndefined JUndefined []
            = Some (JObj [], [JObj []])"
    by (simp add: delegate_def retrieveStep_def probeEnv_def)
  have c2: "toIdSchemaInternal probeEnv (Suc (Suc (Suc 0))) (JObj [(DEPENDENCIES_KEY, JObj [])])
              ''root'' ''_'' (Some ''root_length'') JUndefined JUndefined []
            = Some (Inr (IdObj None [(ID_KEY, IdStr ''root_length'')]))"
    by (simp add: toIdSchemaInternal_delegate [OF d2] empty_schema_leaf)
  from absent_formData [OF o f, of "Suc (Suc (Suc 0))" "''root''" "''_''" None] o c2
  show ?thesis by (simp add: lengthSchema_def fieldId_def forInOrder_def isIndex_def)
qed

subsection \<open>Claim C9\<close>


subsection \<open>Claim C10\<close>

text \<open>
  Claim C10. A schema that is no object value (\<^verbatim>\<open>typeof\<close> is not \<^verbatim>\<open>object\<close>: a
  boolean, a number, a string, \<^verbatim>\<open>undefined\<close>), and a schema that the reference and
  items handling lead, in \<open>k\<close> recursive calls, to a node that is no object value or is
  not classified as an object with properties, gives the tree of the single property
  \<^verbatim>\<open>$id\<close>, whose value is the base identifier, or the prefix when the base identifier
  is absent or empty. The value \<^verbatim>\<open>null\<close> has \<^verbatim>\<open>typeof\<close> \<^verbatim>\<open>object\<close> and is no such node.
\<close>

theorem leaf_single_node:
  assumes "delegates E k schema rootSchema formData recurseList = Some (schema', recurseList')"
    and "isLeaf E schema' rootSchema formData recurseList'"
  shows "toIdSchemaInternal E (Suc (k + n)) schema idPrefix idSeparator id' rootSchema formData
           recurseList
         = Some (Inr (IdObj None [(ID_KEY, IdStr (id_or id' idPrefix))]))"
proof -
  have "toIdSchemaInternal E (k + Suc n) schema idPrefix idSeparator id' rootSchema formData
           recurseList
        = toIdSchemaInternal E (Suc n) schema' idPrefix idSeparator id' rootSchema formData
            recurseList'"
    using assms(1) by (rule toIdSchemaInternal_delegates)
  also have "\<dots> = Some (Inr (newIdSchema (id_or id' idPrefix)))"
    using assms(2) by (rule toIdSchemaInternal_leaf)
  finally show ?thesis by (simp add: newIdSchema_def)
qed

theorem leaf_single_node_witness:
  "delegates derefEnv 0 (JBool True) JUndefined JUndefined [] = Some (JBool True, []) \<and>
   isLeaf derefEnv (JBool True) JUndefined JUndefined [] \<and>
   toIdSchemaInternal derefEnv (Suc 0) (JBool True) ''root'' ''_'' None JUndefined JUndefined []
   = Some (Inr (IdObj None [(ID_KEY, IdStr ''root'')])) \<and>
   delegates derefEnv (Suc 0) arrayOfStrings JUndefined JUndefined []
   = Some (JObj [(''type'', JStr ''string'')], []) \<and>
   isLeaf derefEnv (JObj [(''type'', JStr ''string'')]) JUndefined JUndefined [] \<and>
   toIdSchemaInternal derefEnv (Suc (Suc 0)) arrayOfStrings ''root'' ''_'' (Some ''root_list'')
     JUndefined JUndefined []
   = Some (Inr (IdObj None [(ID_KEY, IdStr ''root_list'')]))"
proof -
  have a: "delegates derefEnv 0 (JBool True) JUndefined JUndefined [] = Some (JBool True, [])"
    by simp
  have b: "isLeaf derefEnv (JBool True) JUndefined JUndefined []" by (simp add: isLeaf_def)
  have c: "delegates derefEnv (Suc 0) arrayOfStrings JUndefined JUndefined []
           = Some (JObj [(''type'', JStr ''string'')], [])"
    by (simp add: delegate_def retrieveStep_def arrayOfStrings_def)
  have d: "isLeaf derefEnv (JObj [(''type'', JStr ''string'')]) JUndefined JUndefined []"
    by (simp add: isLeaf_def retrieveStep_def derefEnv_def classify_def)
  from leaf_single_node [OF a b, of 0 "''root''" "''_''" None]
    leaf_single_node [OF c d, of 0 "''root''" "''_''" "Some ''root_list''"] a b c d
  show ?thesis by simp
qed

end
